theory Spec2Isabelle
  imports Main "HOL-Library.Word"
begin

unbundle bit_operations_syntax

section \<open>Bytes and buffers\<close>

text \<open>
  A Node \<open>Buffer\<close> is a sequence of bytes. Reading an element gives a number between
  0 and 255 (\<open>uint\<close> of the byte).
\<close>

type_synonym byte = "8 word"
type_synonym buffer = "byte list"

definition ascii :: "string \<Rightarrow> buffer" where
  "ascii s = map (\<lambda>c. of_nat (of_char c)) s"

section \<open>The bitwise operators of JavaScript\<close>

text \<open>
  JavaScript numbers are modelled as \<open>int\<close>. The bitwise operators convert their
  operands with ToInt32 (ToUint32 for the left operand of \<open>>>>\<close>), work on the
  two's complement representation and give a signed 32-bit result (\<open>>>>\<close> an
  unsigned one). The shift count is taken modulo 32.
\<close>

definition toInt32 :: "int \<Rightarrow> int" where
  "toInt32 x = (x + 2 ^ 31) mod 2 ^ 32 - 2 ^ 31"

definition toUint32 :: "int \<Rightarrow> int" where
  "toUint32 x = x mod 2 ^ 32"

definition js_xor :: "int \<Rightarrow> int \<Rightarrow> int" where
  "js_xor a b = toInt32 (toInt32 a XOR toInt32 b)"

definition js_and :: "int \<Rightarrow> int \<Rightarrow> int" where
  "js_and a b = toInt32 (toInt32 a AND toInt32 b)"

definition js_not :: "int \<Rightarrow> int" where
  "js_not a = toInt32 (NOT (toInt32 a))"

definition js_ushr :: "int \<Rightarrow> nat \<Rightarrow> int" where
  "js_ushr a n = drop_bit (n mod 32) (toUint32 a)"

section \<open>crc32Table and crc32\<close>

text \<open>
  The body of the inner loop of the table construction:
  \<^verbatim>\<open>i = i & 1 ? 0xedb88320 ^ (i >>> 1) : i >>> 1\<close>.
\<close>

definition crc32TableStep :: "int \<Rightarrow> int" where
  "crc32TableStep i =
     (if js_and i 1 \<noteq> 0 then js_xor 0xedb88320 (js_ushr i 1) else js_ushr i 1)"

text \<open>\<^verbatim>\<open>for (let j = 0; j < 8; j++)\<close>: the first argument counts the remaining rounds.\<close>

fun crc32TableLoop :: "nat \<Rightarrow> int \<Rightarrow> int" where
  "crc32TableLoop 0 i = i"
| "crc32TableLoop (Suc n) i = crc32TableLoop n (crc32TableStep i)"

text \<open>
  The callback of \<open>Uint32Array.map\<close> returns \<^verbatim>\<open>i >>> 0\<close>; storing into the typed array
  converts with ToUint32 once more.
\<close>

definition crc32TableEntry :: "int \<Rightarrow> int" where
  "crc32TableEntry i = toUint32 (js_ushr (crc32TableLoop 8 i) 0)"

definition crc32Table :: "int list" where
  "crc32Table = map (\<lambda>i. crc32TableEntry (int i)) [0..<256]"

text \<open>
  Reading a typed array outside its bounds gives \<open>undefined\<close>, which the operator
  \<open>^\<close> converts to 0.
\<close>

definition tableAt :: "int \<Rightarrow> int" where
  "tableAt i = (if 0 \<le> i \<and> i < 256 then crc32Table ! nat i else 0)"

definition crc32_index :: "int \<Rightarrow> byte \<Rightarrow> int" where
  "crc32_index crc b = js_and (js_xor crc (uint b)) 0xff"

definition crc32_step :: "int \<Rightarrow> byte \<Rightarrow> int" where
  "crc32_step crc b = js_xor (tableAt (crc32_index crc b)) (js_ushr crc 8)"

definition crc32 :: "buffer \<Rightarrow> int" where
  "crc32 buffer = js_ushr (js_not (foldl crc32_step (js_not 0) buffer)) 0"

section \<open>SHA-1 and HMAC\<close>

text \<open>
  The hash function behind \<open>createHmac("sha1", key)\<close> and behind the default encoding of
  \<open>publicEncrypt\<close>: SHA-1 on a padded message of blocks of 64 bytes, with five words of
  32 bits as state, and HMAC with the key padded to one block.
\<close>

type_synonym word32 = "32 word"

definition be32 :: "word32 \<Rightarrow> buffer" where
  "be32 w = [ucast (drop_bit 24 w), ucast (drop_bit 16 w), ucast (drop_bit 8 w), ucast w]"

definition be64 :: "nat \<Rightarrow> buffer" where
  "be64 n = (let w = (of_nat n :: 64 word) in map (\<lambda>i. ucast (drop_bit (8 * (7 - i)) w)) [0..<8])"

fun word32_of :: "buffer \<Rightarrow> word32" where
  "word32_of (b0 # b1 # b2 # b3 # rest) =
     push_bit 24 (ucast b0) OR push_bit 16 (ucast b1) OR push_bit 8 (ucast b2) OR ucast b3"
| "word32_of _ = 0"

definition sha1_pad :: "buffer \<Rightarrow> buffer" where
  "sha1_pad msg =
     msg @ [0x80] @ replicate ((64 - (length msg + 9) mod 64) mod 64) 0 @ be64 (8 * length msg)"

definition sha1_f :: "nat \<Rightarrow> word32 \<Rightarrow> word32 \<Rightarrow> word32 \<Rightarrow> word32" where
  "sha1_f t b c d =
     (if t < 20 then (b AND c) OR (NOT b AND d)
      else if t < 40 then b XOR c XOR d
      else if t < 60 then (b AND c) OR (b AND d) OR (c AND d)
      else b XOR c XOR d)"

definition sha1_k :: "nat \<Rightarrow> word32" where
  "sha1_k t =
     (if t < 20 then 0x5a827999 else if t < 40 then 0x6ed9eba1
      else if t < 60 then 0x8f1bbcdc else 0xca62c1d6)"

primrec sha1_schedule :: "nat \<Rightarrow> word32 list \<Rightarrow> word32 list" where
  "sha1_schedule 0 w = w"
| "sha1_schedule (Suc n) w =
     sha1_schedule n
       (w @ [word_rotl 1 (w ! (length w - 3) XOR w ! (length w - 8) XOR
                          w ! (length w - 14) XOR w ! (length w - 16))])"

type_synonym sha1_state = "word32 \<times> word32 \<times> word32 \<times> word32 \<times> word32"

fun sha1_round :: "word32 list \<Rightarrow> sha1_state \<Rightarrow> nat \<Rightarrow> sha1_state" where
  "sha1_round w (a, b, c, d, e) t =
     (word_rotl 5 a + sha1_f t b c d + e + sha1_k t + w ! t, a, word_rotl 30 b, c, d)"

fun sha1_add :: "sha1_state \<Rightarrow> sha1_state \<Rightarrow> sha1_state" where
  "sha1_add (a, b, c, d, e) (a', b', c', d', e') = (a + a', b + b', c + c', d + d', e + e')"

definition sha1_block :: "sha1_state \<Rightarrow> buffer \<Rightarrow> sha1_state" where
  "sha1_block h blk =
     (let w = sha1_schedule 64 (map (\<lambda>i. word32_of (drop (4 * i) blk)) [0..<16])
      in sha1_add h (foldl (sha1_round w) h [0..<80]))"

primrec sha1_blocks :: "nat \<Rightarrow> sha1_state \<Rightarrow> buffer \<Rightarrow> sha1_state" where
  "sha1_blocks 0 h m = h"
| "sha1_blocks (Suc n) h m = sha1_blocks n (sha1_block h (take 64 m)) (drop 64 m)"

definition sha1_init :: sha1_state where
  "sha1_init = (0x67452301, 0xefcdab89, 0x98badcfe, 0x10325476, 0xc3d2e1f0)"

fun sha1_output :: "sha1_state \<Rightarrow> buffer" where
  "sha1_output (a, b, c, d, e) = be32 a @ be32 b @ be32 c @ be32 d @ be32 e"

definition sha1 :: "buffer \<Rightarrow> buffer" where
  "sha1 msg = (let m = sha1_pad msg in sha1_output (sha1_blocks (length m div 64) sha1_init m))"

definition xor_bytes :: "buffer \<Rightarrow> buffer \<Rightarrow> buffer" where
  "xor_bytes a b = map2 (XOR) a b"

definition hmac_sha1 :: "buffer \<Rightarrow> buffer \<Rightarrow> buffer" where
  "hmac_sha1 key msg =
     (let k0 = (if length key > 64 then sha1 key else key);
          k = k0 @ replicate (64 - length k0) 0
      in sha1 (map (\<lambda>b. b XOR 0x5c) k @ sha1 (map (\<lambda>b. b XOR 0x36) k @ msg)))"

section \<open>CRC32 in the words of the specification\<close>

text \<open>
  The reflected CRC32 on words of 32 bits: the table entry of a byte is eight rounds of
  shifting right and adding the polynomial \<open>0xEDB88320\<close> when a one falls out; the
  checksum starts from \<open>0xFFFFFFFF\<close>, takes one table entry for each byte and is
  complemented at the end. It is compared below with what \<open>crc32\<close> computes with the
  operators of JavaScript.
\<close>

definition spec_crc32_table_step :: "word32 \<Rightarrow> word32" where
  "spec_crc32_table_step c = (if bit c 0 then 0xEDB88320 XOR drop_bit 1 c else drop_bit 1 c)"

definition spec_crc32_table :: "word32 \<Rightarrow> word32" where
  "spec_crc32_table i = (spec_crc32_table_step ^^ 8) i"

definition spec_crc32_step :: "word32 \<Rightarrow> byte \<Rightarrow> word32" where
  "spec_crc32_step crc b = spec_crc32_table ((crc XOR ucast b) AND 0xFF) XOR drop_bit 8 crc"

definition spec_crc32 :: "buffer \<Rightarrow> word32" where
  "spec_crc32 bytes = NOT (foldl spec_crc32_step 0xFFFFFFFF bytes)"

section \<open>AES-256\<close>

text \<open>
  The block cipher behind \<open>"aes-256-ecb"\<close> and \<open>"aes-256-cbc"\<close>. A block is a list of
  16 bytes, the columns of the state one after the other. A key of 32 bytes is expanded
  to 15 round keys; the cipher has 14 rounds, the inverse cipher undoes them from the last.
\<close>

definition sbox :: "byte list" where
  "sbox = [
     0x63, 0x7c, 0x77, 0x7b, 0xf2, 0x6b, 0x6f, 0xc5, 0x30, 0x01, 0x67, 0x2b, 0xfe, 0xd7, 0xab, 0x76,
     0xca, 0x82, 0xc9, 0x7d, 0xfa, 0x59, 0x47, 0xf0, 0xad, 0xd4, 0xa2, 0xaf, 0x9c, 0xa4, 0x72, 0xc0,
     0xb7, 0xfd, 0x93, 0x26, 0x36, 0x3f, 0xf7, 0xcc, 0x34, 0xa5, 0xe5, 0xf1, 0x71, 0xd8, 0x31, 0x15,
     0x04, 0xc7, 0x23, 0xc3, 0x18, 0x96, 0x05, 0x9a, 0x07, 0x12, 0x80, 0xe2, 0xeb, 0x27, 0xb2, 0x75,
     0x09, 0x83, 0x2c, 0x1a, 0x1b, 0x6e, 0x5a, 0xa0, 0x52, 0x3b, 0xd6, 0xb3, 0x29, 0xe3, 0x2f, 0x84,
     0x53, 0xd1, 0x00, 0xed, 0x20, 0xfc, 0xb1, 0x5b, 0x6a, 0xcb, 0xbe, 0x39, 0x4a, 0x4c, 0x58, 0xcf,
     0xd0, 0xef, 0xaa, 0xfb, 0x43, 0x4d, 0x33, 0x85, 0x45, 0xf9, 0x02, 0x7f, 0x50, 0x3c, 0x9f, 0xa8,
     0x51, 0xa3, 0x40, 0x8f, 0x92, 0x9d, 0x38, 0xf5, 0xbc, 0xb6, 0xda, 0x21, 0x10, 0xff, 0xf3, 0xd2,
     0xcd, 0x0c, 0x13, 0xec, 0x5f, 0x97, 0x44, 0x17, 0xc4, 0xa7, 0x7e, 0x3d, 0x64, 0x5d, 0x19, 0x73,
     0x60, 0x81, 0x4f, 0xdc, 0x22, 0x2a, 0x90, 0x88, 0x46, 0xee, 0xb8, 0x14, 0xde, 0x5e, 0x0b, 0xdb,
     0xe0, 0x32, 0x3a, 0x0a, 0x49, 0x06, 0x24, 0x5c, 0xc2, 0xd3, 0xac, 0x62, 0x91, 0x95, 0xe4, 0x79,
     0xe7, 0xc8, 0x37, 0x6d, 0x8d, 0xd5, 0x4e, 0xa9, 0x6c, 0x56, 0xf4, 0xea, 0x65, 0x7a, 0xae, 0x08,
     0xba, 0x78, 0x25, 0x2e, 0x1c, 0xa6, 0xb4, 0xc6, 0xe8, 0xdd, 0x74, 0x1f, 0x4b, 0xbd, 0x8b, 0x8a,
     0x70, 0x3e, 0xb5, 0x66, 0x48, 0x03, 0xf6, 0x0e, 0x61, 0x35, 0x57, 0xb9, 0x86, 0xc1, 0x1d, 0x9e,
     0xe1, 0xf8, 0x98, 0x11, 0x69, 0xd9, 0x8e, 0x94, 0x9b, 0x1e, 0x87, 0xe9, 0xce, 0x55, 0x28, 0xdf,
     0x8c, 0xa1, 0x89, 0x0d, 0xbf, 0xe6, 0x42, 0x68, 0x41, 0x99, 0x2d, 0x0f, 0xb0, 0x54, 0xbb, 0x16]"

definition inv_sbox :: "byte list" where
  "inv_sbox = [
     0x52, 0x09, 0x6a, 0xd5, 0x30, 0x36, 0xa5, 0x38, 0xbf, 0x40, 0xa3, 0x9e, 0x81, 0xf3, 0xd7, 0xfb,
     0x7c, 0xe3, 0x39, 0x82, 0x9b, 0x2f, 0xff, 0x87, 0x34, 0x8e, 0x43, 0x44, 0xc4, 0xde, 0xe9, 0xcb,
     0x54, 0x7b, 0x94, 0x32, 0xa6, 0xc2, 0x23, 0x3d, 0xee, 0x4c, 0x95, 0x0b, 0x42, 0xfa, 0xc3, 0x4e,
     0x08, 0x2e, 0xa1, 0x66, 0x28, 0xd9, 0x24, 0xb2, 0x76, 0x5b, 0xa2, 0x49, 0x6d, 0x8b, 0xd1, 0x25,
     0x72, 0xf8, 0xf6, 0x64, 0x86, 0x68, 0x98, 0x16, 0xd4, 0xa4, 0x5c, 0xcc, 0x5d, 0x65, 0xb6, 0x92,
     0x6c, 0x70, 0x48, 0x50, 0xfd, 0xed, 0xb9, 0xda, 0x5e, 0x15, 0x46, 0x57, 0xa7, 0x8d, 0x9d, 0x84,
     0x90, 0xd8, 0xab, 0x00, 0x8c, 0xbc, 0xd3, 0x0a, 0xf7, 0xe4, 0x58, 0x05, 0xb8, 0xb3, 0x45, 0x06,
     0xd0, 0x2c, 0x1e, 0x8f, 0xca, 0x3f, 0x0f, 0x02, 0xc1, 0xaf, 0xbd, 0x03, 0x01, 0x13, 0x8a, 0x6b,
     0x3a, 0x91, 0x11, 0x41, 0x4f, 0x67, 0xdc, 0xea, 0x97, 0xf2, 0xcf, 0xce, 0xf0, 0xb4, 0xe6, 0x73,
     0x96, 0xac, 0x74, 0x22, 0xe7, 0xad, 0x35, 0x85, 0xe2, 0xf9, 0x37, 0xe8, 0x1c, 0x75, 0xdf, 0x6e,
     0x47, 0xf1, 0x1a, 0x71, 0x1d, 0x29, 0xc5, 0x89, 0x6f, 0xb7, 0x62, 0x0e, 0xaa, 0x18, 0xbe, 0x1b,
     0xfc, 0x56, 0x3e, 0x4b, 0xc6, 0xd2, 0x79, 0x20, 0x9a, 0xdb, 0xc0, 0xfe, 0x78, 0xcd, 0x5a, 0xf4,
     0x1f, 0xdd, 0xa8, 0x33, 0x88, 0x07, 0xc7, 0x31, 0xb1, 0x12, 0x10, 0x59, 0x27, 0x80, 0xec, 0x5f,
     0x60, 0x51, 0x7f, 0xa9, 0x19, 0xb5, 0x4a, 0x0d, 0x2d, 0xe5, 0x7a, 0x9f, 0x93, 0xc9, 0x9c, 0xef,
     0xa0, 0xe0, 0x3b, 0x4d, 0xae, 0x2a, 0xf5, 0xb0, 0xc8, 0xeb, 0xbb, 0x3c, 0x83, 0x53, 0x99, 0x61,
     0x17, 0x2b, 0x04, 0x7e, 0xba, 0x77, 0xd6, 0x26, 0xe1, 0x69, 0x14, 0x63, 0x55, 0x21, 0x0c, 0x7d]"

definition sub_byte :: "byte \<Rightarrow> byte" where
  "sub_byte b = sbox ! unat b"

definition inv_sub_byte :: "byte \<Rightarrow> byte" where
  "inv_sub_byte b = inv_sbox ! unat b"

definition xtime :: "byte \<Rightarrow> byte" where
  "xtime a = push_bit 1 a XOR (if bit a 7 then 0x1b else 0)"

definition sub_bytes :: "buffer \<Rightarrow> buffer" where
  "sub_bytes s = map sub_byte s"

definition inv_sub_bytes :: "buffer \<Rightarrow> buffer" where
  "inv_sub_bytes s = map inv_sub_byte s"

definition shift_rows :: "buffer \<Rightarrow> buffer" where
  "shift_rows s = map (\<lambda>i. s ! i) [0, 5, 10, 15, 4, 9, 14, 3, 8, 13, 2, 7, 12, 1, 6, 11]"

definition inv_shift_rows :: "buffer \<Rightarrow> buffer" where
  "inv_shift_rows s = map (\<lambda>i. s ! i) [0, 13, 10, 7, 4, 1, 14, 11, 8, 5, 2, 15, 12, 9, 6, 3]"

fun mix_column :: "buffer \<Rightarrow> buffer" where
  "mix_column [a0, a1, a2, a3] =
     [xtime a0 XOR (xtime a1 XOR a1) XOR a2 XOR a3,
      a0 XOR xtime a1 XOR (xtime a2 XOR a2) XOR a3,
      a0 XOR a1 XOR xtime a2 XOR (xtime a3 XOR a3),
      (xtime a0 XOR a0) XOR a1 XOR a2 XOR xtime a3]"
| "mix_column c = c"

definition gmul9 :: "byte \<Rightarrow> byte" where
  "gmul9 a = xtime (xtime (xtime a)) XOR a"

definition gmul11 :: "byte \<Rightarrow> byte" where
  "gmul11 a = xtime (xtime (xtime a)) XOR xtime a XOR a"

definition gmul13 :: "byte \<Rightarrow> byte" where
  "gmul13 a = xtime (xtime (xtime a)) XOR xtime (xtime a) XOR a"

definition gmul14 :: "byte \<Rightarrow> byte" where
  "gmul14 a = xtime (xtime (xtime a)) XOR xtime (xtime a) XOR xtime a"

fun inv_mix_column :: "buffer \<Rightarrow> buffer" where
  "inv_mix_column [a0, a1, a2, a3] =
     [gmul14 a0 XOR gmul11 a1 XOR gmul13 a2 XOR gmul9 a3,
      gmul9 a0 XOR gmul14 a1 XOR gmul11 a2 XOR gmul13 a3,
      gmul13 a0 XOR gmul9 a1 XOR gmul14 a2 XOR gmul11 a3,
      gmul11 a0 XOR gmul13 a1 XOR gmul9 a2 XOR gmul14 a3]"
| "inv_mix_column c = c"

definition columns :: "buffer \<Rightarrow> buffer list" where
  "columns s = map (\<lambda>c. take 4 (drop (4 * c) s)) [0, 1, 2, 3]"

definition mix_columns :: "buffer \<Rightarrow> buffer" where
  "mix_columns s = concat (map mix_column (columns s))"

definition inv_mix_columns :: "buffer \<Rightarrow> buffer" where
  "inv_mix_columns s = concat (map inv_mix_column (columns s))"

definition add_round_key :: "buffer \<Rightarrow> buffer \<Rightarrow> buffer" where
  "add_round_key k s = xor_bytes s k"

fun aes_rounds :: "buffer list \<Rightarrow> buffer \<Rightarrow> buffer" where
  "aes_rounds [] s = s"
| "aes_rounds [k] s = add_round_key k (shift_rows (sub_bytes s))"
| "aes_rounds (k # ks) s =
     aes_rounds ks (add_round_key k (mix_columns (shift_rows (sub_bytes s))))"

fun aes_inv_rounds :: "buffer list \<Rightarrow> buffer \<Rightarrow> buffer" where
  "aes_inv_rounds [] s = s"
| "aes_inv_rounds [k] s = inv_sub_bytes (inv_shift_rows (add_round_key k s))"
| "aes_inv_rounds (k # ks) s =
     inv_sub_bytes (inv_shift_rows (inv_mix_columns (add_round_key k (aes_inv_rounds ks s))))"

fun aes_cipher :: "buffer list \<Rightarrow> buffer \<Rightarrow> buffer" where
  "aes_cipher [] s = s"
| "aes_cipher (k # ks) s = aes_rounds ks (add_round_key k s)"

fun aes_inv_cipher :: "buffer list \<Rightarrow> buffer \<Rightarrow> buffer" where
  "aes_inv_cipher [] s = s"
| "aes_inv_cipher (k # ks) s = add_round_key k (aes_inv_rounds ks s)"

definition rot_word :: "buffer \<Rightarrow> buffer" where
  "rot_word w = drop 1 w @ take 1 w"

definition rcon :: "byte list" where
  "rcon = [0x01, 0x02, 0x04, 0x08, 0x10, 0x20, 0x40]"

text \<open>Key expansion for a key of eight words: \<open>w\<close> holds the words made so far.\<close>

definition next_key_word :: "buffer list \<Rightarrow> buffer" where
  "next_key_word w =
     (let i = length w;
          t = w ! (i - 1);
          t' = (if i mod 8 = 0
                then xor_bytes (sub_bytes (rot_word t)) [rcon ! (i div 8 - 1), 0, 0, 0]
                else if i mod 8 = 4 then sub_bytes t
                else t)
      in xor_bytes (w ! (i - 8)) t')"

primrec expand_words :: "nat \<Rightarrow> buffer list \<Rightarrow> buffer list" where
  "expand_words 0 w = w"
| "expand_words (Suc n) w = expand_words n (w @ [next_key_word w])"

definition key_expansion :: "buffer \<Rightarrow> buffer list" where
  "key_expansion key =
     (let w = expand_words 52 (map (\<lambda>i. take 4 (drop (4 * i) key)) [0..<8])
      in map (\<lambda>r. concat (take 4 (drop (4 * r) w))) [0..<15])"

definition aes256_encrypt_block :: "buffer \<Rightarrow> buffer \<Rightarrow> buffer" where
  "aes256_encrypt_block key blk = aes_cipher (key_expansion key) blk"

definition aes256_decrypt_block :: "buffer \<Rightarrow> buffer \<Rightarrow> buffer" where
  "aes256_decrypt_block key blk = aes_inv_cipher (key_expansion key) blk"

section \<open>The primitives of node:crypto used by the payload cipher\<close>

text \<open>
  The exceptions thrown by the library are values of \<open>error\<close>; a function that can
  throw returns \<open>error + 'a\<close>, with \<open>Inl\<close> for the exception.
\<close>

datatype error =
    InvalidKeyLength
  | InvalidIV
  | WrongFinalBlockLength
  | BadDecrypt
  | DataTooLargeForKeySize
  | DataTooLargeForModulus
  | KeySizeTooSmall
  | ModulusTooLarge
  | BadEValue
  | NoInverse
  | InvalidKey

text \<open>
  The random generator is a stream of bytes; \<open>randomBytes n\<close> reads the next \<open>n\<close>
  bytes and returns the rest of the stream.
\<close>

type_synonym rng = "nat \<Rightarrow> byte"

definition randomBytes :: "nat \<Rightarrow> rng \<Rightarrow> buffer \<times> rng" where
  "randomBytes n g = (map g [0..<n], \<lambda>i. g (i + n))"

text \<open>\<open>createHmac("sha1", key)\<close>, \<open>update\<close> and \<open>digest\<close>.\<close>

record hmac =
  hmac_key :: buffer
  hmac_data :: buffer

definition createHmac :: "buffer \<Rightarrow> hmac" where
  "createHmac key = \<lparr>hmac_key = key, hmac_data = []\<rparr>"

definition hmac_update :: "hmac \<Rightarrow> buffer \<Rightarrow> hmac" where
  "hmac_update h d = h\<lparr>hmac_data := hmac_data h @ d\<rparr>"

definition hmac_digest :: "hmac \<Rightarrow> buffer" where
  "hmac_digest h = hmac_sha1 (hmac_key h) (hmac_data h)"

text \<open>
  A cipher object of \<open>createCipheriv\<close> or \<open>createDecipheriv\<close>: the algorithm, the
  direction, the key, the chaining value of CBC, the padding switch and the input bytes
  not yet processed.
\<close>

datatype cipher_mode = AES_256_ECB | AES_256_CBC

record cipher =
  alg :: cipher_mode
  decrypting :: bool
  ckey :: buffer
  chaining :: buffer
  auto_padding :: bool
  pending :: buffer

text \<open>
  The initialisation checks the initialization vector first (a missing or empty one where
  the algorithm needs one, or one of the wrong length), then the length of the key.
\<close>

definition iv_length :: "cipher_mode \<Rightarrow> nat" where
  "iv_length m = (case m of AES_256_ECB \<Rightarrow> 0 | AES_256_CBC \<Rightarrow> 16)"

definition init_cipher :: "bool \<Rightarrow> cipher_mode \<Rightarrow> buffer \<Rightarrow> buffer option \<Rightarrow> error + cipher" where
  "init_cipher dec m k iv =
     (let ivb = (case iv of None \<Rightarrow> [] | Some b \<Rightarrow> b) in
      if ivb = [] \<and> iv_length m \<noteq> 0 then Inl InvalidIV
      else if ivb \<noteq> [] \<and> length ivb \<noteq> iv_length m then Inl InvalidIV
      else if length k \<noteq> 32 then Inl InvalidKeyLength
      else Inr \<lparr>alg = m, decrypting = dec, ckey = k, chaining = ivb,
                auto_padding = True, pending = []\<rparr>)"

definition createCipheriv :: "cipher_mode \<Rightarrow> buffer \<Rightarrow> buffer option \<Rightarrow> error + cipher" where
  "createCipheriv = init_cipher False"

definition createDecipheriv :: "cipher_mode \<Rightarrow> buffer \<Rightarrow> buffer option \<Rightarrow> error + cipher" where
  "createDecipheriv = init_cipher True"

definition setAutoPadding :: "bool \<Rightarrow> cipher \<Rightarrow> cipher" where
  "setAutoPadding b c = c\<lparr>auto_padding := b\<rparr>"

text \<open>One block of 16 bytes: the output and the cipher with the new chaining value.\<close>

definition cipher_block :: "cipher \<Rightarrow> buffer \<Rightarrow> buffer \<times> cipher" where
  "cipher_block c blk =
     (case alg c of
        AES_256_ECB \<Rightarrow>
          (if decrypting c then (aes256_decrypt_block (ckey c) blk, c)
           else (aes256_encrypt_block (ckey c) blk, c))
      | AES_256_CBC \<Rightarrow>
          (if decrypting c
           then (xor_bytes (aes256_decrypt_block (ckey c) blk) (chaining c), c\<lparr>chaining := blk\<rparr>)
           else (let out = aes256_encrypt_block (ckey c) (xor_bytes blk (chaining c))
                 in (out, c\<lparr>chaining := out\<rparr>))))"

primrec cipher_blocks :: "nat \<Rightarrow> cipher \<Rightarrow> buffer \<Rightarrow> buffer \<times> cipher" where
  "cipher_blocks 0 c d = ([], c)"
| "cipher_blocks (Suc n) c d =
     (let (o1, c1) = cipher_block c (take 16 d);
          (o2, c2) = cipher_blocks n c1 (drop 16 d)
      in (o1 @ o2, c2))"

text \<open>
  \<open>update\<close> processes the complete blocks of the pending bytes followed by the new
  data and keeps the rest. When decrypting with padding it holds the last complete block
  back for \<open>final\<close>.
\<close>

definition cipher_update :: "cipher \<Rightarrow> buffer \<Rightarrow> buffer \<times> cipher" where
  "cipher_update c d =
     (let total = pending c @ d;
          n = (if decrypting c \<and> auto_padding c \<and> total \<noteq> [] \<and> length total mod 16 = 0
               then length total div 16 - 1
               else length total div 16);
          (out, c') = cipher_blocks n c total
      in (out, c'\<lparr>pending := drop (16 * n) total\<rparr>))"

text \<open>
  Removing the padding of the last decrypted block: the last byte is the number of padding
  bytes, between 1 and 16, and every padding byte has that value.
\<close>

definition unpad_block :: "buffer \<Rightarrow> error + buffer" where
  "unpad_block blk =
     (let pad = unat (last blk) in
      if pad = 0 \<or> pad > 16 then Inl BadDecrypt
      else if \<not> list_all (\<lambda>b. b = last blk) (drop (16 - pad) blk) then Inl BadDecrypt
      else Inr (take (16 - pad) blk))"

definition pad_block :: "buffer \<Rightarrow> buffer" where
  "pad_block b = b @ replicate (16 - length b) (of_nat (16 - length b))"

definition cipher_final :: "cipher \<Rightarrow> error + buffer" where
  "cipher_final c =
     (if decrypting c then
        (if auto_padding c then
           (if length (pending c) \<noteq> 16 then Inl WrongFinalBlockLength
            else unpad_block (fst (cipher_block c (pending c))))
         else if pending c = [] then Inr []
         else Inl WrongFinalBlockLength)
      else
        (if auto_padding c then Inr (fst (cipher_block c (pad_block (pending c))))
         else if pending c = [] then Inr []
         else Inl WrongFinalBlockLength))"

section \<open>generateHmacIV, encrypt and decrypt\<close>

definition generateHmacIV :: "rng \<Rightarrow> buffer \<Rightarrow> buffer \<Rightarrow> buffer" where
  "generateHmacIV g data k =
     (let hmacSecret = take 16 k;
          (random, g') = randomBytes 3 g;
          h0 = createHmac hmacSecret;
          h1 = hmac_update h0 random;
          h2 = hmac_update h1 data
      in take 13 (hmac_digest h2) @ random)"

definition encrypt :: "rng \<Rightarrow> buffer \<Rightarrow> buffer \<Rightarrow> error + buffer" where
  "encrypt g data k =
     (let IV = generateHmacIV g data k in
      case createCipheriv AES_256_ECB k None of
        Inl e \<Rightarrow> Inl e
      | Inr cipherIV0 \<Rightarrow>
          (let cipherIV = setAutoPadding False cipherIV0;
               (encryptedIV, cipherIV') = cipher_update cipherIV IV
           in case cipher_final cipherIV' of
                Inl e \<Rightarrow> Inl e
              | Inr unused \<Rightarrow>
                  (case createCipheriv AES_256_CBC k (Some IV) of
                     Inl e \<Rightarrow> Inl e
                   | Inr cipherData \<Rightarrow>
                       (let (d1, cipherData') = cipher_update cipherData data
                        in case cipher_final cipherData' of
                             Inl e \<Rightarrow> Inl e
                           | Inr d2 \<Rightarrow> Inr (encryptedIV @ d1 @ d2)))))"

definition decrypt :: "buffer \<Rightarrow> buffer \<Rightarrow> error + buffer" where
  "decrypt data k =
     (case createDecipheriv AES_256_ECB k None of
        Inl e \<Rightarrow> Inl e
      | Inr decipherIV0 \<Rightarrow>
          (let decipherIV = setAutoPadding False decipherIV0;
               (IV, decipherIV') = cipher_update decipherIV (take 16 data)
           in case cipher_final decipherIV' of
                Inl e \<Rightarrow> Inl e
              | Inr unused \<Rightarrow>
                  (case createDecipheriv AES_256_CBC k (Some IV) of
                     Inl e \<Rightarrow> Inl e
                   | Inr decipherData \<Rightarrow>
                       (let (d1, decipherData') = cipher_update decipherData (drop 16 data)
                        in case cipher_final decipherData' of
                             Inl e \<Rightarrow> Inl e
                           | Inr d2 \<Rightarrow> Inr (d1 @ d2)))))"

text \<open>\<open>decrypt(encrypt(p, k), k)\<close>: an exception of \<open>encrypt\<close> leaves the call.\<close>

definition decrypt_encrypt :: "rng \<Rightarrow> buffer \<Rightarrow> buffer \<Rightarrow> error + buffer" where
  "decrypt_encrypt g p k =
     (case encrypt g p k of Inl e \<Rightarrow> Inl e | Inr frame \<Rightarrow> decrypt frame k)"

section \<open>The cipher frame in the words of the specification\<close>

text \<open>
  AES-256-CBC of a whole plaintext with block padding, written as the specification
  describes it, to be compared with what \<open>encrypt\<close> computes through the cipher object.
\<close>

definition pkcs7_pad :: "buffer \<Rightarrow> buffer" where
  "pkcs7_pad d = d @ replicate (16 - length d mod 16) (of_nat (16 - length d mod 16))"

primrec cbc_encrypt_blocks :: "buffer \<Rightarrow> nat \<Rightarrow> buffer \<Rightarrow> buffer \<Rightarrow> buffer" where
  "cbc_encrypt_blocks k 0 prev d = []"
| "cbc_encrypt_blocks k (Suc n) prev d =
     (let c = aes256_encrypt_block k (xor_bytes (take 16 d) prev)
      in c @ cbc_encrypt_blocks k n c (drop 16 d))"

definition spec_aes_256_cbc :: "buffer \<Rightarrow> buffer \<Rightarrow> buffer \<Rightarrow> buffer" where
  "spec_aes_256_cbc k iv p =
     cbc_encrypt_blocks k (length (pkcs7_pad p) div 16) iv (pkcs7_pad p)"

definition spec_hmac_iv :: "buffer \<Rightarrow> buffer \<Rightarrow> buffer \<Rightarrow> buffer" where
  "spec_hmac_iv k r p = take 13 (hmac_sha1 (take 16 k) (r @ p)) @ r"

text \<open>
  The kinds of errors of the specification, on the exceptions of the library: an integrity
  error is a failure of the decryption itself, thrown by \<open>final\<close> (a last block of the
  wrong length, invalid padding); an initialization vector or a key of the wrong length is
  an error about the arguments, thrown when the cipher object is created.
\<close>

definition spec_integrity_error :: "error \<Rightarrow> bool" where
  "spec_integrity_error e = (e = WrongFinalBlockLength \<or> e = BadDecrypt)"

section \<open>JavaScript strings, hexadecimal and base64 text\<close>

text \<open>
  A JavaScript string is a sequence of UTF-16 code units. \<open>js\<close> gives the string of a
  text whose characters are below 256, each character as the code unit of the same value.
\<close>

type_synonym js_string = "16 word list"

definition js :: "string \<Rightarrow> js_string" where
  "js s = map (\<lambda>c. of_nat (of_char c)) s"

text \<open>
  \<open>Buffer.from(s)\<close>: the UTF-8 encoding of the string. A high surrogate followed by a
  low surrogate is one character of four bytes; a surrogate that stands alone is replaced by
  \<open>U+FFFD\<close>.
\<close>

fun utf8_encode :: "js_string \<Rightarrow> buffer" where
  "utf8_encode [] = []"
| "utf8_encode (u # rest) =
     (if unat u < 0x80 then of_nat (unat u) # utf8_encode rest
      else if unat u < 0x800 then
        of_nat (0xC0 + unat u div 64) # of_nat (0x80 + unat u mod 64) # utf8_encode rest
      else if 0xD800 \<le> unat u \<and> unat u < 0xDC00 then
        (case rest of
           [] \<Rightarrow> [0xEF, 0xBF, 0xBD]
         | v # rest' \<Rightarrow>
             (if 0xDC00 \<le> unat v \<and> unat v < 0xE000 then
                (let cp = 0x10000 + (unat u - 0xD800) * 1024 + (unat v - 0xDC00)
                 in of_nat (0xF0 + cp div 262144) # of_nat (0x80 + cp div 4096 mod 64) #
                    of_nat (0x80 + cp div 64 mod 64) # of_nat (0x80 + cp mod 64) #
                    utf8_encode rest')
              else 0xEF # 0xBF # 0xBD # utf8_encode rest))
      else if 0xDC00 \<le> unat u \<and> unat u < 0xE000 then
        0xEF # 0xBF # 0xBD # utf8_encode rest
      else
        of_nat (0xE0 + unat u div 4096) # of_nat (0x80 + unat u div 64 mod 64) #
        of_nat (0x80 + unat u mod 64) # utf8_encode rest)"

text \<open>
  The value of a hexadecimal digit. The decoder of the library looks a code unit up by its
  low byte only, so a code unit above 255 whose low byte is that of a digit counts as the
  digit.
\<close>

definition unhex :: "16 word \<Rightarrow> nat option" where
  "unhex c =
     (let n = unat c mod 256 in
      if 48 \<le> n \<and> n \<le> 57 then Some (n - 48)
      else if 97 \<le> n \<and> n \<le> 102 then Some (n - 87)
      else if 65 \<le> n \<and> n \<le> 70 then Some (n - 55)
      else None)"

text \<open>
  \<open>Buffer.from(s, "hex")\<close> decodes two code units at a time and stops, without an
  exception, at the first pair that is not two hexadecimal digits; a single code unit left
  at the end is dropped.
\<close>

fun hex_decode :: "js_string \<Rightarrow> buffer" where
  "hex_decode (a # b # rest) =
     (case unhex a of
        None \<Rightarrow> []
      | Some x \<Rightarrow>
          (case unhex b of
             None \<Rightarrow> []
           | Some y \<Rightarrow> of_nat (16 * x + y) # hex_decode rest))"
| "hex_decode s = []"

text \<open>
  Base64 text has only characters below 128; it is held as a \<open>string\<close>, and as the
  JavaScript string \<open>js\<close> of it where the program returns it.
\<close>

definition b64_alphabet :: string where
  "b64_alphabet = ''ABCDEFGHIJKLMNOPQRSTUVWXYZabcdefghijklmnopqrstuvwxyz0123456789+/''"

definition b64_char :: "nat \<Rightarrow> char" where
  "b64_char n = b64_alphabet ! (n mod 64)"

text \<open>The text of \<open>buf.toString("base64")\<close>.\<close>

fun base64_encode :: "buffer \<Rightarrow> string" where
  "base64_encode (a # b # c # rest) =
     (let v = 65536 * unat a + 256 * unat b + unat c
      in b64_char (v div 262144) # b64_char (v div 4096) # b64_char (v div 64) # b64_char v #
         base64_encode rest)"
| "base64_encode [a, b] =
     (let v = 65536 * unat a + 256 * unat b
      in [b64_char (v div 262144), b64_char (v div 4096), b64_char (v div 64), CHR ''=''])"
| "base64_encode [a] =
     (let v = 65536 * unat a
      in [b64_char (v div 262144), b64_char (v div 4096), CHR ''='', CHR ''=''])"
| "base64_encode [] = []"

text \<open>
  The decoder of the library reads both alphabets of base64, skips the characters that
  belong to neither and stops at the padding.
\<close>

definition b64_value :: "char \<Rightarrow> nat option" where
  "b64_value c =
     (let n = (of_char c :: nat) in
      if 65 \<le> n \<and> n \<le> 90 then Some (n - 65)
      else if 97 \<le> n \<and> n \<le> 122 then Some (n - 71)
      else if 48 \<le> n \<and> n \<le> 57 then Some (n + 4)
      else if n = 43 \<or> n = 45 then Some 62
      else if n = 47 \<or> n = 95 then Some 63
      else None)"

fun sextets_decode :: "nat list \<Rightarrow> buffer" where
  "sextets_decode (a # b # c # d # rest) =
     (let v = 262144 * a + 4096 * b + 64 * c + d
      in of_nat (v div 65536) # of_nat (v div 256) # of_nat v # sextets_decode rest)"
| "sextets_decode [a, b, c] =
     (let v = 262144 * a + 4096 * b + 64 * c
      in [of_nat (v div 65536), of_nat (v div 256)])"
| "sextets_decode [a, b] = [of_nat ((262144 * a + 4096 * b) div 65536)]"
| "sextets_decode s = []"

definition base64_decode :: "string \<Rightarrow> buffer" where
  "base64_decode s =
     sextets_decode (List.map_filter b64_value (takeWhile (\<lambda>c. c \<noteq> CHR ''='') s))"

section \<open>RSA public keys\<close>

record rsa_public_key =
  rsa_n :: nat
  rsa_e :: nat

definition os2ip :: "buffer \<Rightarrow> nat" where
  "os2ip bs = foldl (\<lambda>a b. 256 * a + unat b) 0 bs"

text \<open>The number as exactly \<open>k\<close> bytes, most significant first (\<open>BN_bn2binpad\<close>).\<close>

definition bn2binpad :: "nat \<Rightarrow> nat \<Rightarrow> buffer" where
  "bn2binpad k x = map (\<lambda>i. of_nat (x div 256 ^ (k - 1 - i))) [0..<k]"

fun num_bytes :: "nat \<Rightarrow> nat" where
  "num_bytes n = (if n = 0 then 0 else Suc (num_bytes (n div 256)))"

fun num_bits :: "nat \<Rightarrow> nat" where
  "num_bits n = (if n = 0 then 0 else Suc (num_bits (n div 2)))"

text \<open>Modular exponentiation by repeated squaring.\<close>

fun modexp :: "nat \<Rightarrow> nat \<Rightarrow> nat \<Rightarrow> nat" where
  "modexp b e m =
     (if e = 0 then 1 mod m
      else if odd e then (modexp b (e div 2) m) ^ 2 mod m * b mod m
      else (modexp b (e div 2) m) ^ 2 mod m)"

text \<open>
  Reading one element of a DER encoding: the tag, the content and what follows it. Lengths
  are in the short form or in the long form with one or two length bytes.
\<close>

definition der_tlv :: "buffer \<Rightarrow> (byte \<times> buffer \<times> buffer) option" where
  "der_tlv bs =
     (case bs of
        tag # l # rest \<Rightarrow>
          (if unat l < 128 then
             (if unat l \<le> length rest
              then Some (tag, take (unat l) rest, drop (unat l) rest) else None)
           else if l = 0x81 then
             (case rest of
                l1 # rest1 \<Rightarrow>
                  (if unat l1 \<le> length rest1
                   then Some (tag, take (unat l1) rest1, drop (unat l1) rest1) else None)
              | _ \<Rightarrow> None)
           else if l = 0x82 then
             (case rest of
                l1 # l2 # rest2 \<Rightarrow>
                  (let n = 256 * unat l1 + unat l2
                   in if n \<le> length rest2
                      then Some (tag, take n rest2, drop n rest2) else None)
              | _ \<Rightarrow> None)
           else None)
      | _ \<Rightarrow> None)"

definition der_expect :: "byte \<Rightarrow> buffer \<Rightarrow> (buffer \<times> buffer) option" where
  "der_expect tag bs =
     (case der_tlv bs of
        None \<Rightarrow> None
      | Some (t, content, rest) \<Rightarrow> if t = tag then Some (content, rest) else None)"

text \<open>
  A PEM public key: the base64 text between the two marker lines is a DER
  SubjectPublicKeyInfo, a sequence of the algorithm identifier and a bit string that holds
  the sequence of the modulus and the public exponent.
\<close>

definition read_public_key :: "string list \<Rightarrow> rsa_public_key option" where
  "read_public_key pem =
     (let body = concat (filter (\<lambda>l. take 5 l \<noteq> ''-----'') pem);
          der = base64_decode body
      in case der_expect 0x30 der of
           None \<Rightarrow> None
         | Some (spki, r0) \<Rightarrow>
             (case der_expect 0x30 spki of
                None \<Rightarrow> None
              | Some (algorithm, r1) \<Rightarrow>
                  (case der_expect 0x03 r1 of
                     None \<Rightarrow> None
                   | Some (bits, r2) \<Rightarrow>
                       (case der_expect 0x30 (drop 1 bits) of
                          None \<Rightarrow> None
                        | Some (rsakey, r3) \<Rightarrow>
                            (case der_expect 0x02 rsakey of
                               None \<Rightarrow> None
                             | Some (n, r4) \<Rightarrow>
                                 (case der_expect 0x02 r4 of
                                    None \<Rightarrow> None
                                  | Some (e, r5) \<Rightarrow>
                                      Some \<lparr>rsa_n = os2ip n, rsa_e = os2ip e\<rparr>))))))"

definition SteamPublicKey :: "string list" where
  "SteamPublicKey =
     [''-----BEGIN PUBLIC KEY-----'',
      ''MIGdMA0GCSqGSIb3DQEBAQUAA4GLADCBhwKBgQDf7BrWLBBmLBc1OhSwfFkRf53T'',
      ''2Ct64+AVzRkeRuh7h3SiGEYxqQMUeYKO6UWiSRKpI2hzic9pobFhRr3Bvr/WARvY'',
      ''gdTckPv+T1JzZsuVcNfFjrocejN1oWI0Rrtgt4Bo+hOneoo3S57G9F1fOpn5nsQ6'',
      ''6WOiu4gZKODnFMBCiQIBEQ=='',
      ''-----END PUBLIC KEY-----'']"

text \<open>\<open>createPublicKey\<close> from a JSON Web Key with the fields \<open>n\<close> and \<open>e\<close>.\<close>

definition createPublicKey_jwk :: "string \<Rightarrow> string \<Rightarrow> rsa_public_key" where
  "createPublicKey_jwk n e =
     \<lparr>rsa_n = os2ip (base64_decode n), rsa_e = os2ip (base64_decode e)\<rparr>"

section \<open>RSA encryption (\<open>publicEncrypt\<close>)\<close>

text \<open>
  The checks of the key made by the public key operation, then the operation itself on an
  encoded message as long as the modulus. The exponentiation needs an odd modulus; with an
  even one the library fails with the error "no inverse".
\<close>

definition rsa_key_check :: "rsa_public_key \<Rightarrow> error option" where
  "rsa_key_check pk =
     (if num_bits (rsa_n pk) > 16384 then Some ModulusTooLarge
      else if rsa_n pk \<le> rsa_e pk then Some BadEValue
      else if num_bits (rsa_n pk) > 3072 \<and> num_bits (rsa_e pk) > 64 then Some BadEValue
      else None)"

definition rsa_core :: "rsa_public_key \<Rightarrow> buffer \<Rightarrow> error + buffer" where
  "rsa_core pk em =
     (if rsa_n pk \<le> os2ip em then Inl DataTooLargeForModulus
      else if even (rsa_n pk) then Inl NoInverse
      else Inr (bn2binpad (num_bytes (rsa_n pk)) (modexp (os2ip em) (rsa_e pk) (rsa_n pk))))"

text \<open>The mask generation function MGF1 with SHA-1.\<close>

definition mgf1 :: "buffer \<Rightarrow> nat \<Rightarrow> buffer" where
  "mgf1 seed len =
     take len (concat (map (\<lambda>c. sha1 (seed @ be32 (of_nat c))) [0..<(len + 19) div 20]))"

text \<open>
  The OAEP encoding with SHA-1 and an empty label, the default of \<open>publicEncrypt\<close>, for a
  modulus of \<open>k\<close> bytes. The lengths are compared as the signed integers of the library.
\<close>

definition oaep_encode :: "rng \<Rightarrow> nat \<Rightarrow> buffer \<Rightarrow> error + buffer" where
  "oaep_encode g k m =
     (let emlen = int k - 1;
          flen = int (length m);
          mdlen = 20
      in if flen > emlen - 2 * mdlen - 1 then Inl DataTooLargeForKeySize
         else if emlen < 2 * mdlen + 1 then Inl KeySizeTooSmall
         else (let db = sha1 [] @ replicate (nat (emlen - flen - 2 * mdlen - 1)) 0 @ [1] @ m;
                   (seed, g') = randomBytes 20 g;
                   maskedDB = xor_bytes db (mgf1 seed (nat (emlen - mdlen)));
                   maskedSeed = xor_bytes seed (mgf1 maskedDB 20)
               in Inr (0 # maskedSeed @ maskedDB)))"

definition publicEncrypt_oaep :: "rng \<Rightarrow> rsa_public_key \<Rightarrow> buffer \<Rightarrow> error + buffer" where
  "publicEncrypt_oaep g pk m =
     (let k = num_bytes (rsa_n pk)
      in if k = 0 then Inl InvalidKey
         else (case oaep_encode g k m of
                 Inl e \<Rightarrow> Inl e
               | Inr em \<Rightarrow>
                   (case rsa_key_check pk of
                      Some e \<Rightarrow> Inl e
                    | None \<Rightarrow> rsa_core pk em)))"

text \<open>
  The padding of PKCS #1 v1.5 for encryption: \<open>00 02 PS 00 M\<close>, where \<open>PS\<close> is random
  and has no zero byte. The library draws the bytes of \<open>PS\<close> at once and then draws
  each zero byte again until it is not zero; the loop does not end on a stream that gives
  only zeros, which is the result \<open>None\<close>.
\<close>

partial_function (option) replace_zeros :: "buffer \<Rightarrow> rng \<Rightarrow> (buffer \<times> rng) option" where
  "replace_zeros ps g =
     (case ps of
        [] \<Rightarrow> Some ([], g)
      | b # bs \<Rightarrow>
          (if b = 0 then replace_zeros (g 0 # bs) (\<lambda>i. g (Suc i))
           else Option.bind (replace_zeros bs g) (\<lambda>(r, g'). Some (b # r, g'))))"

definition pkcs1_type2_encode :: "rng \<Rightarrow> nat \<Rightarrow> buffer \<Rightarrow> (error + buffer) option" where
  "pkcs1_type2_encode g k m =
     (if int (length m) > int k - 11 then Some (Inl DataTooLargeForKeySize)
      else (let (ps0, g1) = randomBytes (k - 3 - length m) g
            in Option.bind (replace_zeros ps0 g1)
                 (\<lambda>(ps, g2). Some (Inr ([0, 2] @ ps @ [0] @ m)))))"

definition publicEncrypt_pkcs1 ::
    "rng \<Rightarrow> rsa_public_key \<Rightarrow> buffer \<Rightarrow> (error + buffer) option" where
  "publicEncrypt_pkcs1 g pk m =
     (let k = num_bytes (rsa_n pk)
      in if k = 0 then Some (Inl InvalidKey)
         else (case rsa_key_check pk of
                 Some e \<Rightarrow> Some (Inl e)
               | None \<Rightarrow>
                   Option.bind (pkcs1_type2_encode g k m)
                     (\<lambda>r. case r of
                             Inl e \<Rightarrow> Some (Inl e)
                           | Inr em \<Rightarrow> Some (rsa_core pk em))))"

section \<open>genSessionKey and rsaEncrypt\<close>

record SessionKey =
  plain :: buffer
  encrypted :: buffer

definition genSessionKey :: "rng \<Rightarrow> buffer \<Rightarrow> error + SessionKey" where
  "genSessionKey g nonce =
     (let (sessionKey, g1) = randomBytes 32 g
      in case read_public_key SteamPublicKey of
           None \<Rightarrow> Inl InvalidKey
         | Some pk \<Rightarrow>
             (case publicEncrypt_oaep g1 pk (sessionKey @ nonce) of
                Inl e \<Rightarrow> Inl e
              | Inr encryptedSessionKey \<Rightarrow>
                  Inr \<lparr>plain = sessionKey, encrypted = encryptedSessionKey\<rparr>))"

definition rsaEncrypt ::
    "rng \<Rightarrow> js_string \<Rightarrow> js_string \<Rightarrow> js_string \<Rightarrow> (error + js_string) option" where
  "rsaEncrypt g password publicKeyMod publicKeyExp =
     (let publicKey = createPublicKey_jwk
                        (base64_encode (hex_decode publicKeyMod))
                        (base64_encode (hex_decode publicKeyExp))
      in case publicEncrypt_pkcs1 g publicKey (utf8_encode password) of
           None \<Rightarrow> None
         | Some (Inl e) \<Rightarrow> Some (Inl e)
         | Some (Inr c) \<Rightarrow> Some (Inr (js (base64_encode c))))"

section \<open>Sample inputs\<close>

text \<open>
  The modulus and the exponent used by the tests of the repository for \<open>rsaEncrypt\<close>
  (the modulus has 143 characters), and a random stream that gives the byte 1 forever.
\<close>

definition testPublicKeyMod :: js_string where
  "testPublicKeyMod =
     js (''c1b05c17a86c7c6bb3eb87f0f52e0c3e5cb6607a0c5c4c2e5ef5f44b3f2c8d0e3c'' @
         ''1b2a3c4d5e6f7a8b9c0d1e2f3a4b5c6d7e8f9a0b1c2d3e4f5a6b7c8d9e0f1a2b3c4d5e6f7a8b9'')"

definition testPublicKeyExp :: js_string where
  "testPublicKeyExp = js ''010001''"

definition ones :: rng where
  "ones i = 1"

section \<open>Properties of crc32\<close>

lemmas js_defs = js_xor_def js_and_def js_ushr_def js_not_def toInt32_def toUint32_def

lemma crc32TableLoop_8:
  "crc32TableLoop 8 i = crc32TableStep (crc32TableStep (crc32TableStep (crc32TableStep
     (crc32TableStep (crc32TableStep (crc32TableStep (crc32TableStep i)))))))"
  by (simp add: numeral_eq_Suc)

lemma tableAt_numeral:
  "tableAt (numeral n) =
     (if numeral n < (256::int) then crc32TableEntry (numeral n) else 0)"
  "tableAt 0 = crc32TableEntry 0"
  "tableAt 1 = crc32TableEntry 1"
  by (simp_all add: tableAt_def crc32Table_def)

lemmas crc32_eval = crc32_def ascii_def crc32_step_def crc32_index_def tableAt_numeral
  crc32TableEntry_def crc32TableLoop_8 crc32TableStep_def js_defs

lemma crc32_empty: "crc32 [] = 0"
  by (simp add: crc32_eval)

lemma crc32_check: "crc32 (ascii ''123456789'') = 0xCBF43926"
  by (simp add: crc32_eval)

lemma crc32_fox:
  "crc32 (ascii ''The quick brown fox jumps over the lazy dog'') = 0x414FA339"
  by (simp add: crc32_eval)

lemma toInt32_small: "0 \<le> x \<Longrightarrow> x < 2 ^ 31 \<Longrightarrow> toInt32 x = x"
  by (simp add: toInt32_def)

lemma crc32_index_bounds: "0 \<le> crc32_index crc b \<and> crc32_index crc b < 256"
proof -
  define y where "y = toInt32 (js_xor crc (uint b)) AND 255"
  have y0: "0 \<le> y" by (simp add: y_def)
  have "y \<le> 255" unfolding y_def by (rule AND_upper2) simp
  moreover have "toInt32 255 = 255" by (simp add: toInt32_def)
  ultimately have "crc32_index crc b = y"
    using y0 by (simp add: crc32_index_def js_and_def y_def toInt32_small)
  with y0 \<open>y \<le> 255\<close> show ?thesis by simp
qed

lemma js_ushr_bounds: "0 \<le> js_ushr a n \<and> js_ushr a n < 2 ^ 32"
proof -
  have "0 \<le> toUint32 a" "toUint32 a < 2 ^ 32" by (simp_all add: toUint32_def)
  moreover have "drop_bit (n mod 32) (toUint32 a) \<le> toUint32 a"
    using zdiv_mono2 [of "toUint32 a" 1 "2 ^ (n mod 32)"] \<open>0 \<le> toUint32 a\<close>
    by (simp add: drop_bit_eq_div)
  ultimately show ?thesis
    by (simp add: js_ushr_def)
qed

section \<open>crc32 is the reflected CRC32\<close>

lemma toInt32_sint: "toInt32 x = sint (word_of_int x :: word32)"
  by (simp add: toInt32_def signed_of_int signed_take_bit_eq_take_bit_shift take_bit_eq_mod)

lemma toUint32_uint: "toUint32 x = uint (word_of_int x :: word32)"
  by (simp add: toUint32_def uint_word_of_int)

lemma js_xor_word: "js_xor a b = sint (word_of_int a XOR word_of_int b :: word32)"
  by (simp add: js_xor_def toInt32_sint of_int_xor_eq)

lemma js_and_word: "js_and a b = sint (word_of_int a AND word_of_int b :: word32)"
  by (simp add: js_and_def toInt32_sint of_int_and_eq)

lemma js_not_word: "js_not a = sint (NOT (word_of_int a) :: word32)"
  by (simp add: js_not_def toInt32_sint of_int_not_eq)

lemma js_ushr_word: "js_ushr a n = uint (drop_bit (n mod 32) (word_of_int a :: word32))"
  by (simp add: js_ushr_def toUint32_uint unsigned_drop_bit_eq unsigned_take_bit_eq [symmetric]
      take_bit_word_eq_self)

lemma crc32TableStep_word:
  "word_of_int (crc32TableStep i) = spec_crc32_table_step (word_of_int i)"
proof -
  have "(word_of_int i AND 1 \<noteq> (0 :: word32)) = bit (word_of_int i :: word32) 0"
    by (auto simp: and_one_eq bit_0 odd_iff_mod_2_eq_one)
  then show ?thesis
    by (simp add: crc32TableStep_def spec_crc32_table_step_def js_and_word js_xor_word
        js_ushr_word signed_eq_0_iff)
qed

lemma crc32TableLoop_word:
  "word_of_int (crc32TableLoop n i) = (spec_crc32_table_step ^^ n) (word_of_int i)"
  by (induction n arbitrary: i) (simp_all add: crc32TableStep_word funpow_swap1)

lemma crc32TableEntry_word:
  "crc32TableEntry i = uint (spec_crc32_table (word_of_int i))"
  by (simp add: crc32TableEntry_def spec_crc32_table_def toUint32_uint js_ushr_word
      crc32TableLoop_word)

lemma tableAt_word:
  assumes "0 \<le> i" "i < 256"
  shows "tableAt i = uint (spec_crc32_table (word_of_int i))"
proof -
  have n: "nat i < length [0..<256]"
    using assms by simp
  have "crc32Table ! nat i = crc32TableEntry (int ([0..<256] ! nat i))"
    unfolding crc32Table_def by (rule nth_map [OF n])
  also have "[0..<256] ! nat i = nat i"
    using n by (simp del: upt_Suc)
  finally show ?thesis
    using assms by (simp add: tableAt_def crc32TableEntry_word)
qed

lemma crc32_index_word:
  "word_of_int (crc32_index crc b) = ((word_of_int crc XOR ucast b) AND 0xFF :: word32)"
  by (simp add: crc32_index_def js_and_word js_xor_word)

lemma crc32_step_word:
  "word_of_int (crc32_step crc b) = spec_crc32_step (word_of_int crc) b"
  using crc32_index_bounds [of crc b]
  by (simp add: crc32_step_def spec_crc32_step_def js_xor_word js_ushr_word tableAt_word
      crc32_index_word)

lemma crc32_fold_word:
  "word_of_int (foldl crc32_step c bs) = foldl spec_crc32_step (word_of_int c) bs"
  by (induction bs arbitrary: c) (simp_all add: crc32_step_word)

lemma crc32_refines_spec: "crc32 buffer = uint (spec_crc32 buffer)"
proof -
  have m1: "(0xFFFFFFFF :: word32) = - 1"
    by simp
  have "word_of_int (js_not 0) = (- 1 :: word32)"
    by (simp add: js_not_word)
  then show ?thesis
    unfolding spec_crc32_def m1
    by (simp add: crc32_def js_ushr_word js_not_word crc32_fold_word)
qed

text \<open>
  Claim C2. \<open>crc32\<close> is the reflected CRC32 with polynomial \<open>0xEDB88320\<close>, seed
  \<open>0xFFFFFFFF\<close> and final complement, for every buffer: the checksum of the empty
  buffer is 0, that of the ASCII bytes of "123456789" is \<open>0xCBF43926\<close>, and that of
  the ASCII bytes of "The quick brown fox jumps over the lazy dog" is \<open>0x414FA339\<close>.
\<close>

theorem crc32_test_vectors:
  "crc32 buffer = uint (spec_crc32 buffer) \<and>
   crc32 [] = 0x00000000 \<and>
   crc32 (ascii ''123456789'') = 0xCBF43926 \<and>
   crc32 (ascii ''The quick brown fox jumps over the lazy dog'') = 0x414FA339"
  using crc32_refines_spec [of buffer] crc32_empty crc32_check crc32_fox by simp

text \<open>
  Claim C9. \<open>crc32\<close> is total: for every running value and every input byte the lookup
  index \<open>(crc ^ byte) & 0xFF\<close> lies within the 256 entries of the table, so the lookup
  reads an entry of the table, and the value returned for any buffer is a non-negative
  integer below \<open>2^32\<close>.
\<close>

theorem crc32_total:
  "0 \<le> crc32_index crc b \<and> crc32_index crc b < 256 \<and>
   nat (crc32_index crc b) < length crc32Table \<and>
   tableAt (crc32_index crc b) = crc32Table ! nat (crc32_index crc b) \<and>
   0 \<le> crc32 buffer \<and> crc32 buffer < 2 ^ 32"
  using crc32_index_bounds [of crc b] js_ushr_bounds [of "js_not (foldl crc32_step (js_not 0) buffer)" 0]
  by (simp add: tableAt_def crc32Table_def crc32_def nat_less_iff)

lemma length_sha1: "length (sha1 m) = 20"
  by (cases "sha1_blocks (length (sha1_pad m) div 64) sha1_init (sha1_pad m)")
     (simp add: sha1_def be32_def)

section \<open>The inverse cipher inverts the cipher\<close>

lemma all_less_numeral:
  "(\<forall>n<numeral k. P n) = (P (pred_numeral k) \<and> (\<forall>n<pred_numeral k. P n))"
  by (simp add: numeral_eq_Suc All_less_Suc)

lemma sbox_inverse_aux: "\<forall>n<256. inv_sbox ! unat (sbox ! n) = of_nat n"
  by (simp add: all_less_numeral sbox_def inv_sbox_def)

lemma inv_sub_byte_sub_byte: "inv_sub_byte (sub_byte b) = b"
proof -
  have "unat b < 256" using unsigned_less [of b] by simp
  then show ?thesis using sbox_inverse_aux by (simp add: sub_byte_def inv_sub_byte_def)
qed

lemma inv_sub_bytes_sub_bytes: "inv_sub_bytes (sub_bytes s) = s"
  by (simp add: inv_sub_bytes_def sub_bytes_def inv_sub_byte_sub_byte comp_def)

lemma length_16_cases:
  assumes "length (s :: 'a list) = 16"
  obtains b0 b1 b2 b3 b4 b5 b6 b7 b8 b9 b10 b11 b12 b13 b14 b15
  where "s = [b0, b1, b2, b3, b4, b5, b6, b7, b8, b9, b10, b11, b12, b13, b14, b15]"
  using assms by (auto simp: numeral_eq_Suc length_Suc_conv)

lemma inv_shift_rows_shift_rows: "length s = 16 \<Longrightarrow> inv_shift_rows (shift_rows s) = s"
  by (erule length_16_cases) (simp add: shift_rows_def inv_shift_rows_def)

lemma xor_cancel: "(a :: byte) XOR (a XOR b) = b"
  by (simp add: xor.assoc [symmetric])

lemmas xor_norm = xor.assoc xor.commute xor.left_commute xor_cancel

lemma xtime_xor: "xtime (a XOR b) = xtime a XOR xtime b"
  by (simp add: xtime_def bit_xor_iff push_bit_xor xor_norm)

lemma inv_mix_column_mix_column:
  "inv_mix_column (mix_column [a0, a1, a2, a3]) = [a0, a1, a2, a3]"
  by (simp add: gmul9_def gmul11_def gmul13_def gmul14_def xtime_xor xor_norm)

lemma inv_mix_columns_mix_columns:
  "length s = 16 \<Longrightarrow> inv_mix_columns (mix_columns s) = s"
  by (erule length_16_cases)
     (simp add: mix_columns_def inv_mix_columns_def columns_def
        gmul9_def gmul11_def gmul13_def gmul14_def xtime_xor xor_norm)


lemma length_xor_bytes [simp]: "length (xor_bytes a b) = min (length a) (length b)"
  by (simp add: xor_bytes_def)

lemma xor_bytes_cancel: "length a = length b \<Longrightarrow> xor_bytes (xor_bytes a b) b = a"
  unfolding xor_bytes_def
  by (induction a b rule: list_induct2) (simp_all add: xor.assoc)

lemma add_round_key_twice:
  "length k = length s \<Longrightarrow> add_round_key k (add_round_key k s) = s"
  by (simp add: add_round_key_def xor_bytes_cancel)

lemma length_add_round_key [simp]:
  "length (add_round_key k s) = min (length s) (length k)"
  by (simp add: add_round_key_def)

lemma length_sub_bytes [simp]: "length (sub_bytes s) = length s"
  by (simp add: sub_bytes_def)

lemma length_shift_rows [simp]: "length (shift_rows s) = 16"
  by (simp add: shift_rows_def)

lemma length_mix_columns [simp]: "length s = 16 \<Longrightarrow> length (mix_columns s) = 16"
  by (erule length_16_cases) (simp add: mix_columns_def columns_def)

lemma length_aes_rounds:
  "\<forall>k\<in>set ks. length k = 16 \<Longrightarrow> length s = 16 \<Longrightarrow> length (aes_rounds ks s) = 16"
  by (induction ks s rule: aes_rounds.induct) simp_all

lemma aes_inv_rounds_rounds:
  "\<forall>k\<in>set ks. length k = 16 \<Longrightarrow> length s = 16 \<Longrightarrow> aes_inv_rounds ks (aes_rounds ks s) = s"
proof (induction ks s rule: aes_rounds.induct)
  case (1 s)
  then show ?case by simp
next
  case (2 k s)
  then show ?case
    by (simp add: add_round_key_twice inv_shift_rows_shift_rows inv_sub_bytes_sub_bytes)
next
  case (3 k k' ks s)
  let ?t = "add_round_key k (mix_columns (shift_rows (sub_bytes s)))"
  have len: "length ?t = 16" using 3 by simp
  have "aes_inv_rounds (k' # ks) (aes_rounds (k' # ks) ?t) = ?t"
    using 3 len by simp
  then show ?case
    using 3
    by (simp add: add_round_key_twice inv_mix_columns_mix_columns
        inv_shift_rows_shift_rows inv_sub_bytes_sub_bytes)
qed

lemma length_aes_cipher:
  "\<forall>k\<in>set ks. length k = 16 \<Longrightarrow> length s = 16 \<Longrightarrow> length (aes_cipher ks s) = 16"
  by (cases ks) (simp_all add: length_aes_rounds)

lemma aes_inv_cipher_cipher:
  "\<forall>k\<in>set ks. length k = 16 \<Longrightarrow> length s = 16 \<Longrightarrow> aes_inv_cipher ks (aes_cipher ks s) = s"
  by (cases ks) (simp_all add: aes_inv_rounds_rounds add_round_key_twice)

lemma length_next_key_word:
  assumes "\<forall>x\<in>set w. length x = 4" and "8 \<le> length w"
  shows "length (next_key_word w) = 4"
proof -
  have a: "length (w ! (length w - 1)) = 4"
    using assms by (metis diff_less less_numeral_extra(1) nth_mem not_numeral_le_zero
        length_greater_0_conv list.size(3))
  have b: "length (w ! (length w - 8)) = 4"
    using assms by (metis diff_less nth_mem zero_less_numeral not_numeral_le_zero
        length_greater_0_conv list.size(3))
  show ?thesis
    using a b by (simp add: next_key_word_def Let_def rot_word_def)
qed

lemma expand_words_inv:
  "\<forall>x\<in>set w. length x = 4 \<Longrightarrow> 8 \<le> length w \<Longrightarrow>
   (\<forall>x\<in>set (expand_words n w). length x = 4) \<and> length (expand_words n w) = length w + n"
proof (induction n arbitrary: w)
  case 0
  then show ?case by simp
next
  case (Suc n)
  have "length (next_key_word w) = 4"
    using Suc.prems by (rule length_next_key_word)
  then have "\<forall>x\<in>set (w @ [next_key_word w]). length x = 4"
    using Suc.prems(1) by auto
  moreover have "8 \<le> length (w @ [next_key_word w])"
    using Suc.prems(2) by simp
  ultimately have "(\<forall>x\<in>set (expand_words n (w @ [next_key_word w])). length x = 4) \<and>
      length (expand_words n (w @ [next_key_word w])) = length (w @ [next_key_word w]) + n"
    by (rule Suc.IH)
  then show ?case by simp
qed

lemma length_concat_words:
  "\<forall>x\<in>set ws. length x = 4 \<Longrightarrow> length (concat ws) = 4 * length ws"
  by (induction ws) simp_all

lemma key_expansion_lengths:
  assumes "length key = 32"
  shows "\<forall>k\<in>set (key_expansion key). length k = 16"
proof -
  define w0 where "w0 = map (\<lambda>i. take 4 (drop (4 * i) key)) [0..<8]"
  define w where "w = expand_words 52 w0"
  have w0: "\<forall>x\<in>set w0. length x = 4" "8 \<le> length w0"
    using assms by (auto simp: w0_def)
  have "length w0 = 8" by (simp add: w0_def)
  then have w: "\<forall>x\<in>set w. length x = 4" "length w = 60"
    using expand_words_inv [OF w0, of 52] unfolding w_def by simp_all
  have "length (concat (take 4 (drop (4 * r) w))) = 16" if "r < 15" for r
  proof -
    have "\<forall>x\<in>set (take 4 (drop (4 * r) w)). length x = 4"
      using w(1) by (meson in_set_dropD in_set_takeD)
    then have "length (concat (take 4 (drop (4 * r) w))) = 4 * length (take 4 (drop (4 * r) w))"
      by (rule length_concat_words)
    also have "\<dots> = 16" using w(2) that by simp
    finally show ?thesis .
  qed
  then show ?thesis
    unfolding key_expansion_def Let_def w_def [symmetric] w0_def [symmetric] by auto
qed

lemma length_aes256_encrypt_block:
  "length key = 32 \<Longrightarrow> length blk = 16 \<Longrightarrow> length (aes256_encrypt_block key blk) = 16"
  unfolding aes256_encrypt_block_def
  by (rule length_aes_cipher [OF key_expansion_lengths])

lemma aes256_decrypt_encrypt_block:
  "length key = 32 \<Longrightarrow> length blk = 16 \<Longrightarrow>
   aes256_decrypt_block key (aes256_encrypt_block key blk) = blk"
  unfolding aes256_encrypt_block_def aes256_decrypt_block_def
  by (rule aes_inv_cipher_cipher [OF key_expansion_lengths])

section \<open>Properties of the cipher object\<close>

lemma length_inv_shift_rows [simp]: "length (inv_shift_rows s) = 16"
  by (simp add: inv_shift_rows_def)

lemma length_inv_sub_bytes [simp]: "length (inv_sub_bytes s) = length s"
  by (simp add: inv_sub_bytes_def)

lemma length_inv_mix_columns [simp]: "length s = 16 \<Longrightarrow> length (inv_mix_columns s) = 16"
  by (erule length_16_cases) (simp add: inv_mix_columns_def columns_def)

lemma length_aes_inv_rounds:
  "\<forall>k\<in>set ks. length k = 16 \<Longrightarrow> length s = 16 \<Longrightarrow> length (aes_inv_rounds ks s) = 16"
  by (induction ks s rule: aes_inv_rounds.induct) simp_all

lemma length_aes_inv_cipher:
  "\<forall>k\<in>set ks. length k = 16 \<Longrightarrow> length s = 16 \<Longrightarrow> length (aes_inv_cipher ks s) = 16"
  by (cases ks) (simp_all add: length_aes_inv_rounds)

lemma length_aes256_decrypt_block:
  "length k = 32 \<Longrightarrow> length blk = 16 \<Longrightarrow> length (aes256_decrypt_block k blk) = 16"
  unfolding aes256_decrypt_block_def
  by (rule length_aes_inv_cipher [OF key_expansion_lengths])

lemma cipher_block_fields [simp]:
  "alg (snd (cipher_block c b)) = alg c"
  "decrypting (snd (cipher_block c b)) = decrypting c"
  "ckey (snd (cipher_block c b)) = ckey c"
  "auto_padding (snd (cipher_block c b)) = auto_padding c"
  "pending (snd (cipher_block c b)) = pending c"
  by (simp_all add: cipher_block_def Let_def split: cipher_mode.split)

lemma cipher_blocks_fields [simp]:
  "alg (snd (cipher_blocks n c d)) = alg c"
  "decrypting (snd (cipher_blocks n c d)) = decrypting c"
  "ckey (snd (cipher_blocks n c d)) = ckey c"
  "auto_padding (snd (cipher_blocks n c d)) = auto_padding c"
  "pending (snd (cipher_blocks n c d)) = pending c"
  by (induction n arbitrary: c d; simp add: split_beta Let_def)+

lemma cipher_block_pending [simp]:
  "fst (cipher_block (c\<lparr>pending := p\<rparr>) b) = fst (cipher_block c b)"
  by (simp add: cipher_block_def Let_def split: cipher_mode.split)

lemma cipher_blocks_append:
  "cipher_blocks (n + m) c d =
     (fst (cipher_blocks n c d) @
        fst (cipher_blocks m (snd (cipher_blocks n c d)) (drop (16 * n) d)),
      snd (cipher_blocks m (snd (cipher_blocks n c d)) (drop (16 * n) d)))"
proof (induction n arbitrary: c d)
  case 0
  then show ?case by simp
next
  case (Suc n)
  have "drop (16 * n) (drop 16 d) = drop (16 * Suc n) d"
    by (simp add: add.commute)
  then show ?case
    by (simp add: Suc.IH split_beta Let_def)
qed

lemma cipher_blocks_prefix:
  "16 * n \<le> length d \<Longrightarrow> cipher_blocks n c (d @ e) = cipher_blocks n c d"
proof (induction n arbitrary: c d)
  case 0
  then show ?case by simp
next
  case (Suc n)
  then have "16 * n \<le> length (drop 16 d)" "16 \<le> length d" by simp_all
  then show ?case
    using Suc.IH [of "drop 16 d"] by (simp add: split_beta Let_def)
qed

lemma cipher_blocks_one:
  "length b = 16 \<Longrightarrow> cipher_blocks (Suc 0) c b = cipher_block c b"
  by (simp add: split_beta Let_def)

lemma length_drop_blocks: "length (drop (16 * (length d div 16)) d) = length d mod 16"
  by (simp add: minus_mult_div_eq_mod mult.commute)

lemma drop_pkcs7_pad:
  "drop (16 * (length d div 16)) (pkcs7_pad d) = pad_block (drop (16 * (length d div 16)) d)"
  by (simp add: pkcs7_pad_def pad_block_def minus_mult_div_eq_mod mult.commute)

lemma length_pad_block: "length b \<le> 16 \<Longrightarrow> length (pad_block b) = 16"
  by (simp add: pad_block_def)

lemma length_pkcs7_pad: "length (pkcs7_pad d) = 16 * (length d div 16 + 1)"
proof -
  have "length d mod 16 < 16" by simp
  then have "length (pkcs7_pad d) = length d + 16 - length d mod 16"
    by (simp add: pkcs7_pad_def)
  also have "\<dots> = 16 * (length d div 16) + 16"
    using div_mult_mod_eq [of "length d" 16] by linarith
  finally show ?thesis by simp
qed

text \<open>
  Encrypting with padding: what \<open>update\<close> followed by \<open>final\<close> return together is the
  encryption of the blocks of the padded data.
\<close>

lemma update_final_encrypt:
  assumes "\<not> decrypting c" "auto_padding c" "pending c = []"
  shows "cipher_final (snd (cipher_update c d)) =
           Inr (fst (cipher_block (snd (cipher_blocks (length d div 16) c d))
                       (pad_block (drop (16 * (length d div 16)) d))))"
    and "fst (cipher_update c d) = fst (cipher_blocks (length d div 16) c d)"
  using assms by (simp_all add: cipher_update_def cipher_final_def split_beta Let_def)

lemma encrypt_blocks_padded:
  "fst (cipher_blocks (length d div 16 + 1) c (pkcs7_pad d)) =
     fst (cipher_blocks (length d div 16) c d) @
     fst (cipher_block (snd (cipher_blocks (length d div 16) c d))
            (pad_block (drop (16 * (length d div 16)) d)))"
proof -
  let ?n = "length d div 16"
  have len: "length (pad_block (drop (16 * ?n) d)) = 16"
    by (rule length_pad_block) (simp add: length_drop_blocks)
  have pre: "cipher_blocks ?n c (pkcs7_pad d) = cipher_blocks ?n c d"
    unfolding pkcs7_pad_def by (rule cipher_blocks_prefix) simp
  show ?thesis
    unfolding cipher_blocks_append [of ?n 1] pre drop_pkcs7_pad
    using cipher_blocks_one [OF len] by simp
qed

lemma cbc_cipher_blocks:
  "alg c = AES_256_CBC \<Longrightarrow> \<not> decrypting c \<Longrightarrow>
   fst (cipher_blocks n c d) = cbc_encrypt_blocks (ckey c) n (chaining c) d"
proof (induction n arbitrary: c d)
  case 0
  then show ?case by simp
next
  case (Suc n)
  let ?o = "aes256_encrypt_block (ckey c) (xor_bytes (take 16 d) (chaining c))"
  have blk: "cipher_block c (take 16 d) = (?o, c\<lparr>chaining := ?o\<rparr>)"
    using Suc.prems by (simp add: cipher_block_def Let_def)
  have "fst (cipher_blocks n (c\<lparr>chaining := ?o\<rparr>) (drop 16 d)) =
          cbc_encrypt_blocks (ckey c) n ?o (drop 16 d)"
    using Suc.IH [of "c\<lparr>chaining := ?o\<rparr>" "drop 16 d"] Suc.prems by simp
  then show ?case
    by (simp add: blk split_beta Let_def)
qed

lemma cbc_block_lengths:
  assumes "alg c = AES_256_CBC" "length (ckey c) = 32" "length (chaining c) = 16" "length b = 16"
  shows "length (fst (cipher_block c b)) = 16"
    and "length (chaining (snd (cipher_block c b))) = 16"
  using assms
  by (simp_all add: cipher_block_def Let_def length_aes256_encrypt_block
      length_aes256_decrypt_block)

lemma length_cbc_blocks:
  "alg c = AES_256_CBC \<Longrightarrow> length (ckey c) = 32 \<Longrightarrow> length (chaining c) = 16 \<Longrightarrow>
   16 * n \<le> length d \<Longrightarrow> length (fst (cipher_blocks n c d)) = 16 * n"
proof (induction n arbitrary: c d)
  case 0
  then show ?case by simp
next
  case (Suc n)
  have b: "length (take 16 d) = 16" using Suc.prems(4) by simp
  note l = cbc_block_lengths [OF Suc.prems(1-3) b]
  have "length (fst (cipher_blocks n (snd (cipher_block c (take 16 d))) (drop 16 d))) = 16 * n"
    using Suc.prems l(2) by (intro Suc.IH) simp_all
  then show ?case
    using l(1) by (simp add: split_beta Let_def)
qed

lemma unpad_pad_block:
  assumes "length r < 16"
  shows "unpad_block (pad_block r) = Inr r"
proof -
  define n where "n = 16 - length r"
  define x :: byte where "x = of_nat n"
  have n: "0 < n" "n \<le> 16" "16 - n = length r"
    using assms by (simp_all add: n_def)
  have pb: "pad_block r = r @ replicate n x"
    by (simp add: pad_block_def n_def x_def)
  have lastx: "last (pad_block r) = x"
    using n(1) by (simp add: pb)
  have "unat x = n"
    using n(2) by (simp add: x_def unat_of_nat)
  then show ?thesis
    using n by (simp add: unpad_block_def lastx Let_def) (simp add: pb list_all_iff)
qed

text \<open>Decrypting the blocks of a CBC encryption under the same key and chaining value.\<close>

lemma cbc_blocks_roundtrip:
  "alg ce = AES_256_CBC \<Longrightarrow> \<not> decrypting ce \<Longrightarrow> alg cd = AES_256_CBC \<Longrightarrow> decrypting cd \<Longrightarrow>
   ckey ce = ckey cd \<Longrightarrow> length (ckey cd) = 32 \<Longrightarrow>
   chaining ce = chaining cd \<Longrightarrow> length (chaining cd) = 16 \<Longrightarrow> length d = 16 * n \<Longrightarrow>
   fst (cipher_blocks n cd (fst (cipher_blocks n ce d))) = d"
proof (induction n arbitrary: ce cd d)
  case 0
  then show ?case by simp
next
  case (Suc n)
  let ?k = "ckey cd"
  let ?x = "xor_bytes (take 16 d) (chaining cd)"
  let ?o = "aes256_encrypt_block ?k ?x"
  let ?ce = "ce\<lparr>chaining := ?o\<rparr>"
  let ?cd = "cd\<lparr>chaining := ?o\<rparr>"
  let ?rest = "fst (cipher_blocks n ?ce (drop 16 d))"
  have lx: "length ?x = 16" using Suc.prems by simp
  have lo: "length ?o = 16"
    using Suc.prems(6) lx by (rule length_aes256_encrypt_block)
  have enc: "cipher_block ce (take 16 d) = (?o, ?ce)"
    using Suc.prems by (simp add: cipher_block_def Let_def)
  have out: "fst (cipher_blocks (Suc n) ce d) = ?o @ ?rest"
    by (simp add: enc split_beta Let_def)
  have "aes256_decrypt_block ?k ?o = ?x"
    using Suc.prems(6) lx by (rule aes256_decrypt_encrypt_block)
  moreover have "xor_bytes ?x (chaining cd) = take 16 d"
    using Suc.prems by (intro xor_bytes_cancel) simp
  ultimately have dec: "cipher_block cd ?o = (take 16 d, ?cd)"
    using Suc.prems by (simp add: cipher_block_def Let_def)
  have ih: "fst (cipher_blocks n ?cd ?rest) = drop 16 d"
    using Suc.prems lo by (intro Suc.IH) simp_all
  have "fst (cipher_blocks (Suc n) cd (?o @ ?rest)) = take 16 d @ drop 16 d"
    using lo by (simp add: dec ih split_beta Let_def)
  then show ?case
    by (simp only: out append_take_drop_id)
qed

section \<open>What encrypt and decrypt compute\<close>

lemma length_randomBytes [simp]: "length (fst (randomBytes n g)) = n"
  by (simp add: randomBytes_def)

lemma length_hmac_sha1 [simp]: "length (hmac_sha1 k m) = 20"
  by (simp add: hmac_sha1_def Let_def length_sha1)

lemma generateHmacIV_eq:
  "generateHmacIV g p k = spec_hmac_iv k (fst (randomBytes 3 g)) p"
  by (simp add: generateHmacIV_def spec_hmac_iv_def createHmac_def hmac_update_def
      hmac_digest_def split_beta Let_def)

lemma length_generateHmacIV [simp]: "length (generateHmacIV g p k) = 16"
  by (simp add: generateHmacIV_eq spec_hmac_iv_def)

lemma ecb_update_final:
  fixes dec :: bool
  assumes "length k = 32" "length b = 16"
  defines "c \<equiv> setAutoPadding False
      \<lparr>alg = AES_256_ECB, decrypting = dec, ckey = k, chaining = [],
       auto_padding = True, pending = []\<rparr>"
  shows "fst (cipher_update c b) =
           (if dec then aes256_decrypt_block k b else aes256_encrypt_block k b)"
    and "cipher_final (snd (cipher_update c b)) = Inr []"
  using assms(2)
  by (simp_all add: c_def setAutoPadding_def cipher_update_def cipher_final_def
      cipher_block_def split_beta Let_def)

lemma init_ecb:
  "length k = 32 \<Longrightarrow>
   init_cipher dec AES_256_ECB k None =
     Inr \<lparr>alg = AES_256_ECB, decrypting = dec, ckey = k, chaining = [],
          auto_padding = True, pending = []\<rparr>"
  by (simp add: init_cipher_def iv_length_def)

lemma init_cbc:
  "length k = 32 \<Longrightarrow> length iv = 16 \<Longrightarrow>
   init_cipher dec AES_256_CBC k (Some iv) =
     Inr \<lparr>alg = AES_256_CBC, decrypting = dec, ckey = k, chaining = iv,
          auto_padding = True, pending = []\<rparr>"
  by (auto simp add: init_cipher_def iv_length_def)

lemma encrypt_closed:
  assumes "length k = 32"
  shows "encrypt g p k =
           Inr (aes256_encrypt_block k (generateHmacIV g p k) @
                spec_aes_256_cbc k (generateHmacIV g p k) p)"
proof -
  define IV where "IV = generateHmacIV g p k"
  define ce where "ce = \<lparr>alg = AES_256_CBC, decrypting = False, ckey = k, chaining = IV,
      auto_padding = True, pending = []\<rparr>"
  have liv: "length IV = 16" by (simp add: IV_def)
  note ecb = ecb_update_final [OF assms liv, of False]
  have cbc: "createCipheriv AES_256_CBC k (Some IV) = Inr ce"
    unfolding createCipheriv_def ce_def by (rule init_cbc [OF assms liv])
  have ce: "\<not> decrypting ce" "auto_padding ce" "pending ce = []"
    "alg ce = AES_256_CBC" "ckey ce = k" "chaining ce = IV"
    by (simp_all add: ce_def)
  note uf = update_final_encrypt [OF ce(1-3), of p]
  have "fst (cipher_update ce p) @
          fst (cipher_block (snd (cipher_blocks (length p div 16) ce p))
                 (pad_block (drop (16 * (length p div 16)) p))) =
        fst (cipher_blocks (length p div 16 + 1) ce (pkcs7_pad p))"
    by (simp only: uf(2) encrypt_blocks_padded)
  also have "\<dots> = cbc_encrypt_blocks k (length p div 16 + 1) IV (pkcs7_pad p)"
    using cbc_cipher_blocks [OF ce(4) ce(1)] by (simp only: ce(5,6))
  also have "\<dots> = spec_aes_256_cbc k IV p"
    by (simp add: spec_aes_256_cbc_def length_pkcs7_pad)
  finally have data: "fst (cipher_update ce p) @
          fst (cipher_block (snd (cipher_blocks (length p div 16) ce p))
                 (pad_block (drop (16 * (length p div 16)) p))) = spec_aes_256_cbc k IV p" .
  show ?thesis
    unfolding encrypt_def IV_def [symmetric] Let_def createCipheriv_def [symmetric]
    using ecb data
    by (simp add: createCipheriv_def init_ecb [OF assms] cbc [unfolded createCipheriv_def]
        uf(1) split_beta)
qed

lemma decrypt_frame:
  assumes "length k = 32" "length e = 16" "length ct = 16 * (n + 1)"
  defines "cd \<equiv> \<lparr>alg = AES_256_CBC, decrypting = True, ckey = k,
      chaining = aes256_decrypt_block k e, auto_padding = True, pending = []\<rparr>"
  shows "decrypt (e @ ct) k =
           (case unpad_block (drop (16 * n) (fst (cipher_blocks (n + 1) cd ct))) of
              Inl err \<Rightarrow> Inl err
            | Inr t \<Rightarrow> Inr (take (16 * n) (fst (cipher_blocks (n + 1) cd ct)) @ t))"
proof -
  define IV where "IV = aes256_decrypt_block k e"
  have liv: "length IV = 16"
    unfolding IV_def using assms(1,2) by (rule length_aes256_decrypt_block)
  note ecb = ecb_update_final [OF assms(1,2), of True]
  have cbc: "init_cipher True AES_256_CBC k (Some IV) = Inr cd"
    unfolding cd_def IV_def [symmetric] by (rule init_cbc [OF assms(1) liv])
  have cd: "decrypting cd" "auto_padding cd" "pending cd = []"
    "alg cd = AES_256_CBC" "ckey cd = k" "chaining cd = IV"
    by (simp_all add: cd_def IV_def)
  have nblocks: "length ct div 16 - 1 = n" "ct \<noteq> []" "length ct mod 16 = 0"
    using assms(3) by auto
  define o1 where "o1 = fst (cipher_blocks n cd ct)"
  define c1 where "c1 = snd (cipher_blocks n cd ct)"
  define last_block where "last_block = drop (16 * n) ct"
  have llb: "length last_block = 16"
    using assms(3) by (simp add: last_block_def)
  have upd: "cipher_update cd ct = (o1, c1\<lparr>pending := last_block\<rparr>)"
    using cd nblocks
    by (simp add: cipher_update_def o1_def c1_def last_block_def split_beta Let_def)
  have c1: "decrypting c1" "auto_padding c1"
    using cd by (simp_all add: c1_def)
  have fin: "cipher_final (c1\<lparr>pending := last_block\<rparr>) =
               unpad_block (fst (cipher_block c1 last_block))"
    using c1 llb by (simp add: cipher_final_def)
  have lo1: "length o1 = 16 * n"
    unfolding o1_def
    using cd(4) assms(1) liv assms(3)
    by (intro length_cbc_blocks) (simp_all add: cd(5,6))
  have whole: "fst (cipher_blocks (n + 1) cd ct) = o1 @ fst (cipher_block c1 last_block)"
    unfolding cipher_blocks_append [of n 1]
    using cipher_blocks_one [OF llb]
    by (simp add: o1_def c1_def last_block_def)
  have "decrypt (e @ ct) k =
          (case unpad_block (fst (cipher_block c1 last_block)) of
             Inl err \<Rightarrow> Inl err | Inr t \<Rightarrow> Inr (o1 @ t))"
    unfolding decrypt_def createDecipheriv_def Let_def
    using ecb assms(2)
    by (simp add: init_ecb [OF assms(1)] IV_def [symmetric] cbc upd fin split_beta
        split: sum.split)
  moreover have "drop (16 * n) (fst (cipher_blocks (n + 1) cd ct)) =
      fst (cipher_block c1 last_block)"
    unfolding whole using lo1 by simp
  moreover have "take (16 * n) (fst (cipher_blocks (n + 1) cd ct)) = o1"
    unfolding whole using lo1 by simp
  ultimately show ?thesis
    by (simp only:)
qed

lemma decrypt_encrypt_closed:
  assumes "length k = 32"
  shows "decrypt_encrypt g p k = Inr p"
proof -
  define IV where "IV = generateHmacIV g p k"
  define n where "n = length p div 16"
  define ce where "ce = \<lparr>alg = AES_256_CBC, decrypting = False, ckey = k, chaining = IV,
      auto_padding = True, pending = []\<rparr>"
  define cd where "cd = \<lparr>alg = AES_256_CBC, decrypting = True, ckey = k, chaining = IV,
      auto_padding = True, pending = []\<rparr>"
  define e where "e = aes256_encrypt_block k IV"
  define ct where "ct = fst (cipher_blocks (n + 1) ce (pkcs7_pad p))"
  have liv: "length IV = 16" by (simp add: IV_def)
  have le: "length e = 16"
    unfolding e_def using assms liv by (rule length_aes256_encrypt_block)
  have lpad: "length (pkcs7_pad p) = 16 * (n + 1)"
    by (simp add: length_pkcs7_pad n_def)
  have lct: "length ct = 16 * (n + 1)"
    unfolding ct_def
    by (rule length_cbc_blocks) (simp_all add: ce_def assms liv lpad)
  have ct_spec: "spec_aes_256_cbc k IV p = ct"
    using cbc_cipher_blocks [of ce "n + 1" "pkcs7_pad p"]
    by (simp add: spec_aes_256_cbc_def ct_def ce_def lpad)
  have enc: "encrypt g p k = Inr (e @ ct)"
    using encrypt_closed [OF assms, of g p]
    by (simp only: IV_def [symmetric] e_def [symmetric] ct_spec)
  have dIV: "aes256_decrypt_block k e = IV"
    unfolding e_def using assms liv by (rule aes256_decrypt_encrypt_block)
  have rt: "fst (cipher_blocks (n + 1) cd ct) = pkcs7_pad p"
    unfolding ct_def
    by (rule cbc_blocks_roundtrip) (simp_all add: ce_def cd_def assms liv lpad)
  have n16: "16 * n \<le> length p"
    by (simp add: n_def)
  have tk: "take (16 * n) (pkcs7_pad p) = take (16 * n) p"
    using n16 by (simp add: pkcs7_pad_def)
  have dr: "drop (16 * n) (pkcs7_pad p) = pad_block (drop (16 * n) p)"
    unfolding n_def by (rule drop_pkcs7_pad)
  have "length (drop (16 * n) p) < 16"
    unfolding n_def length_drop_blocks by simp
  then have un: "unpad_block (pad_block (drop (16 * n) p)) = Inr (drop (16 * n) p)"
    by (rule unpad_pad_block)
  have "decrypt (e @ ct) k = Inr p"
    unfolding decrypt_frame [OF assms le lct] dIV cd_def [symmetric] rt tk dr un
    by simp
  then show ?thesis
    by (simp add: decrypt_encrypt_def enc)
qed

text \<open>
  Claim C1. For every plaintext \<open>p\<close> (the empty one and those of 10,000 bytes or more
  included), every key of 32 bytes and every outcome of the random draw made by
  \<open>encrypt\<close>, \<open>decrypt(encrypt(p, k), k)\<close> returns \<open>p\<close>.
\<close>

theorem decrypt_encrypt_roundtrip:
  "length k = 32 \<Longrightarrow> decrypt_encrypt g p k = Inr p"
  by (rule decrypt_encrypt_closed)

theorem decrypt_encrypt_roundtrip_witness:
  "length (replicate 32 (7 :: byte)) = 32 \<and>
   decrypt_encrypt (\<lambda>i. of_nat i) [] (replicate 32 7) = Inr [] \<and>
   decrypt_encrypt (\<lambda>i. of_nat i) (replicate 10000 0x61) (replicate 32 7) =
     Inr (replicate 10000 0x61)"
  using decrypt_encrypt_roundtrip [of "replicate 32 7" "\<lambda>i. of_nat i" "[]"]
    decrypt_encrypt_roundtrip [of "replicate 32 7" "\<lambda>i. of_nat i" "replicate 10000 0x61"]
  by simp

text \<open>
  Claim C3. For every plaintext and every key of 32 bytes, the output of \<open>encrypt\<close> is
  the encrypted initialization vector, of exactly 16 bytes, followed by the AES-CBC
  ciphertext; the length of the ciphertext is the length of the plaintext rounded up to
  the next multiple of 16 (the multiple above it when the length is itself a multiple),
  that is \<open>N * 16\<close> bytes with \<open>N \<ge> 1\<close>.
\<close>

theorem encrypt_frame_layout:
  assumes "length k = 32"
  shows "\<exists>eiv ct N.
           encrypt g p k = Inr (eiv @ ct) \<and>
           eiv = aes256_encrypt_block k (generateHmacIV g p k) \<and> length eiv = 16 \<and>
           ct = spec_aes_256_cbc k (generateHmacIV g p k) p \<and>
           length ct = N * 16 \<and> 1 \<le> N \<and> N = length p div 16 + 1 \<and>
           length p < length ct \<and> length ct \<le> length p + 16"
proof -
  let ?iv = "generateHmacIV g p k"
  let ?n = "length p div 16"
  define ce where "ce = \<lparr>alg = AES_256_CBC, decrypting = False, ckey = k, chaining = ?iv,
      auto_padding = True, pending = []\<rparr>"
  have lpad: "length (pkcs7_pad p) = 16 * (?n + 1)"
    by (rule length_pkcs7_pad)
  have "spec_aes_256_cbc k ?iv p = fst (cipher_blocks (?n + 1) ce (pkcs7_pad p))"
    using cbc_cipher_blocks [of ce "?n + 1" "pkcs7_pad p"]
    by (simp add: spec_aes_256_cbc_def ce_def lpad)
  moreover have "length (fst (cipher_blocks (?n + 1) ce (pkcs7_pad p))) = 16 * (?n + 1)"
    by (rule length_cbc_blocks) (simp_all add: ce_def assms lpad)
  ultimately have lct: "length (spec_aes_256_cbc k ?iv p) = (?n + 1) * 16"
    by simp
  have le: "length (aes256_encrypt_block k ?iv) = 16"
    using assms by (rule length_aes256_encrypt_block) simp
  have "length p < (?n + 1) * 16" "(?n + 1) * 16 \<le> length p + 16"
    by (simp_all add: div_less_iff_less_mult [symmetric] mult.commute)
  then show ?thesis
    using encrypt_closed [OF assms, of g p] le lct by simp
qed

theorem encrypt_frame_layout_witness:
  "length (replicate 32 (7 :: byte)) = 32 \<and>
   (\<exists>eiv ct N.
      encrypt (\<lambda>i. of_nat i) (replicate 16 0x61) (replicate 32 7) = Inr (eiv @ ct) \<and>
      eiv = aes256_encrypt_block (replicate 32 7)
              (generateHmacIV (\<lambda>i. of_nat i) (replicate 16 0x61) (replicate 32 7)) \<and>
      length eiv = 16 \<and>
      ct = spec_aes_256_cbc (replicate 32 7)
             (generateHmacIV (\<lambda>i. of_nat i) (replicate 16 0x61) (replicate 32 7))
             (replicate 16 0x61) \<and>
      length ct = N * 16 \<and> 1 \<le> N \<and> N = 2 \<and> length ct = 32)"
proof -
  have "length (replicate 32 (7 :: byte)) = 32" by simp
  from encrypt_frame_layout [OF this, of "\<lambda>i. of_nat i" "replicate 16 0x61"]
  show ?thesis by auto
qed

text \<open>
  Claim C4. For every plaintext \<open>p\<close>, key \<open>k\<close> of 32 bytes and random value \<open>r\<close> of
  3 bytes drawn during the encryption, the initialization vector is the first 13 bytes of
  HMAC-SHA1 under \<open>k[0:16]\<close> of \<open>r || p\<close>, followed by \<open>r\<close>; the first 16 bytes of the
  output are the AES-256 encryption of that vector as one block under the whole key,
  without padding, and the rest is the AES-256-CBC encryption of \<open>p\<close> under \<open>k\<close> with
  the derived vector, not the encrypted one.
\<close>

theorem encrypt_hmac_iv:
  assumes "length k = 32"
  shows "\<exists>r IV frame.
           r = fst (randomBytes 3 g) \<and> length r = 3 \<and>
           IV = take 13 (hmac_sha1 (take 16 k) (r @ p)) @ r \<and>
           generateHmacIV g p k = IV \<and>
           encrypt g p k = Inr frame \<and>
           take 16 frame = aes256_encrypt_block k IV \<and>
           drop 16 frame = spec_aes_256_cbc k IV p"
proof -
  have le: "length (aes256_encrypt_block k (generateHmacIV g p k)) = 16"
    using assms by (rule length_aes256_encrypt_block) simp
  have iv: "generateHmacIV g p k =
      take 13 (hmac_sha1 (take 16 k) (fst (randomBytes 3 g) @ p)) @ fst (randomBytes 3 g)"
    by (simp add: generateHmacIV_eq spec_hmac_iv_def)
  show ?thesis
    using encrypt_closed [OF assms, of g p] le
    by (simp add: iv [symmetric])
qed

theorem encrypt_hmac_iv_witness:
  "length (replicate 32 (7 :: byte)) = 32 \<and>
   (\<exists>r IV frame.
      r = fst (randomBytes 3 (\<lambda>i. of_nat i)) \<and> r = [0, 1, 2] \<and>
      IV = take 13 (hmac_sha1 (take 16 (replicate 32 7)) (r @ ascii ''Hello, Steam!'')) @ r \<and>
      generateHmacIV (\<lambda>i. of_nat i) (ascii ''Hello, Steam!'') (replicate 32 7) = IV \<and>
      encrypt (\<lambda>i. of_nat i) (ascii ''Hello, Steam!'') (replicate 32 7) = Inr frame \<and>
      take 16 frame = aes256_encrypt_block (replicate 32 7) IV \<and>
      drop 16 frame = spec_aes_256_cbc (replicate 32 7) IV (ascii ''Hello, Steam!''))"
proof -
  have "length (replicate 32 (7 :: byte)) = 32" by simp
  from encrypt_hmac_iv [OF this, of "\<lambda>i. of_nat i" "ascii ''Hello, Steam!''"]
  have "\<exists>r IV frame.
      r = fst (randomBytes 3 (\<lambda>i. of_nat i)) \<and>
      IV = take 13 (hmac_sha1 (take 16 (replicate 32 7)) (r @ ascii ''Hello, Steam!'')) @ r \<and>
      generateHmacIV (\<lambda>i. of_nat i) (ascii ''Hello, Steam!'') (replicate 32 7) = IV \<and>
      encrypt (\<lambda>i. of_nat i) (ascii ''Hello, Steam!'') (replicate 32 7) = Inr frame \<and>
      take 16 frame = aes256_encrypt_block (replicate 32 7) IV \<and>
      drop 16 frame = spec_aes_256_cbc (replicate 32 7) IV (ascii ''Hello, Steam!'')"
    by blast
  moreover have "fst (randomBytes 3 (\<lambda>i. of_nat i)) = [0, 1, 2 :: byte]"
    by (simp add: randomBytes_def eval_nat_numeral)
  ultimately show ?thesis by simp
qed

section \<open>Frames that decrypt rejects\<close>

lemma decrypt_empty_frame:
  assumes "length k = 32"
  shows "decrypt [] k = Inl InvalidIV"
  unfolding decrypt_def createDecipheriv_def Let_def
  using assms
  by (simp add: init_ecb [OF assms] setAutoPadding_def cipher_update_def cipher_final_def
      init_cipher_def iv_length_def split_beta)

lemma decrypt_short_frame:
  assumes "length k = 32" "frame \<noteq> []" "length frame < 16"
  shows "decrypt frame k = Inl WrongFinalBlockLength"
  unfolding decrypt_def createDecipheriv_def Let_def
  using assms(2,3)
  by (simp add: init_ecb [OF assms(1)] setAutoPadding_def cipher_update_def cipher_final_def
      split_beta)

lemma decrypt_cbc_stage:
  assumes "length k = 32" "16 \<le> length frame"
  defines "cd \<equiv> \<lparr>alg = AES_256_CBC, decrypting = True, ckey = k,
      chaining = aes256_decrypt_block k (take 16 frame), auto_padding = True, pending = []\<rparr>"
  shows "decrypt frame k =
           (case cipher_final (snd (cipher_update cd (drop 16 frame))) of
              Inl e \<Rightarrow> Inl e
            | Inr d2 \<Rightarrow> Inr (fst (cipher_update cd (drop 16 frame)) @ d2))"
proof -
  have lt: "length (take 16 frame) = 16"
    using assms(2) by simp
  have liv: "length (aes256_decrypt_block k (take 16 frame)) = 16"
    using assms(1) lt by (rule length_aes256_decrypt_block)
  note ecb = ecb_update_final [OF assms(1) lt, of True]
  have cbc: "init_cipher True AES_256_CBC k (Some (aes256_decrypt_block k (take 16 frame))) =
               Inr cd"
    unfolding cd_def by (rule init_cbc [OF assms(1) liv])
  show ?thesis
    unfolding decrypt_def createDecipheriv_def Let_def
    using ecb by (simp add: init_ecb [OF assms(1)] cbc split_beta)
qed

lemma decrypt_ragged_frame:
  assumes "length k = 32" "16 \<le> length frame" "(length frame - 16) mod 16 \<noteq> 0"
  shows "decrypt frame k = Inl WrongFinalBlockLength"
proof -
  define cd where "cd = \<lparr>alg = AES_256_CBC, decrypting = True, ckey = k,
      chaining = aes256_decrypt_block k (take 16 frame), auto_padding = True, pending = []\<rparr>"
  define t where "t = drop 16 frame"
  have lt: "length t mod 16 \<noteq> 0"
    using assms(3) by (simp add: t_def)
  have "length (drop (16 * (length t div 16)) t) = length t mod 16"
    by (rule length_drop_blocks)
  moreover have "length t mod 16 < 16" by simp
  ultimately have "length (drop (16 * (length t div 16)) t) \<noteq> 16" by linarith
  then have "cipher_final (snd (cipher_update cd t)) = Inl WrongFinalBlockLength"
    using lt by (simp add: cipher_update_def cipher_final_def cd_def split_beta Let_def)
  then show ?thesis
    using decrypt_cbc_stage [OF assms(1,2)] by (simp add: cd_def t_def)
qed

text \<open>
  Claim C6, as the code has it. \<open>decrypt\<close> has no check of the frame of its own; the
  library fails. For every key of 32 bytes, \<open>decrypt\<close> of a frame that is not empty and
  shorter than 16 bytes, or of a frame whose part after offset 16 has a length that is not a
  multiple of 16, fails with the integrity error of a last block of the wrong length and
  returns no result. For the empty frame it fails too and returns no result, but the error
  is about an argument: the initialization vector recovered from the frame is empty.
\<close>

theorem decrypt_rejects_bad_framing:
  assumes "length k = 32"
    and "length frame < 16 \<or> (length frame - 16) mod 16 \<noteq> 0"
  shows "(frame \<noteq> [] \<longrightarrow>
            decrypt frame k = Inl WrongFinalBlockLength \<and>
            spec_integrity_error WrongFinalBlockLength) \<and>
         (frame = [] \<longrightarrow>
            decrypt frame k = Inl InvalidIV \<and> \<not> spec_integrity_error InvalidIV)"
proof (cases "length frame < 16")
  case True
  then show ?thesis
    using decrypt_empty_frame [OF assms(1)] decrypt_short_frame [OF assms(1), of frame]
    by (auto simp: spec_integrity_error_def)
next
  case False
  then have "16 \<le> length frame" "(length frame - 16) mod 16 \<noteq> 0" "frame \<noteq> []"
    using assms(2) by auto
  then show ?thesis
    using decrypt_ragged_frame [OF assms(1), of frame]
    by (simp add: spec_integrity_error_def)
qed

theorem decrypt_rejects_bad_framing_witness:
  "length (replicate 32 (7 :: byte)) = 32 \<and>
   decrypt [1, 2, 3] (replicate 32 7) = Inl WrongFinalBlockLength \<and>
   decrypt (replicate 40 0) (replicate 32 7) = Inl WrongFinalBlockLength \<and>
   spec_integrity_error WrongFinalBlockLength \<and>
   decrypt [] (replicate 32 7) = Inl InvalidIV \<and>
   \<not> spec_integrity_error InvalidIV"
  using decrypt_rejects_bad_framing [of "replicate 32 7" "[]"]
    decrypt_rejects_bad_framing [of "replicate 32 7" "[1, 2, 3]"]
    decrypt_rejects_bad_framing [of "replicate 32 7" "replicate 40 0"]
  by simp

text \<open>
  The empty frame is shorter than 16 bytes, and the exception it raises is not an integrity
  error.
\<close>

theorem decrypt_empty_frame_counterexample:
  "length ([] :: buffer) < 16 \<and> length (replicate 32 (7 :: byte)) = 32 \<and>
   decrypt [] (replicate 32 7) = Inl InvalidIV \<and>
   \<not> spec_integrity_error InvalidIV"
  using decrypt_empty_frame [of "replicate 32 7"]
  by (simp add: spec_integrity_error_def)

text \<open>
  Claim C10. For every key of 32 bytes, \<open>decrypt\<close> of a frame of exactly 16 bytes, whose
  ciphertext part is empty, fails instead of returning an empty buffer: decrypting with
  padding needs at least one block.
\<close>

theorem decrypt_rejects_empty_ciphertext:
  assumes "length k = 32" and "length frame = 16"
  shows "decrypt frame k = Inl WrongFinalBlockLength"
proof -
  have "16 \<le> length frame" "drop 16 frame = []"
    using assms(2) by simp_all
  then show ?thesis
    using decrypt_cbc_stage [OF assms(1), of frame]
    by (simp add: cipher_update_def cipher_final_def split_beta)
qed

theorem decrypt_rejects_empty_ciphertext_witness:
  "length (replicate 32 (7 :: byte)) = 32 \<and> length (replicate 16 (0 :: byte)) = 16 \<and>
   decrypt (replicate 16 0) (replicate 32 7) = Inl WrongFinalBlockLength"
  using decrypt_rejects_empty_ciphertext [of "replicate 32 7" "replicate 16 0"]
  by simp

section \<open>Properties of the RSA operations\<close>

declare num_bytes.simps [simp del] num_bits.simps [simp del] modexp.simps [simp del]

lemma length_bn2binpad [simp]: "length (bn2binpad k x) = k"
  by (simp add: bn2binpad_def)

lemma num_bits_le: "n < 2 ^ m \<Longrightarrow> num_bits n \<le> m"
proof (induction m arbitrary: n)
  case 0
  then show ?case by (simp add: num_bits.simps)
next
  case (Suc m)
  show ?case
  proof (cases "n = 0")
    case True
    then show ?thesis by (simp add: num_bits.simps)
  next
    case False
    have "n div 2 < 2 ^ m" using Suc.prems by simp
    then have "num_bits (n div 2) \<le> m" by (rule Suc.IH)
    then show ?thesis using False by (simp add: num_bits.simps [of n])
  qed
qed

lemma os2ip_foldl_bound:
  "foldl (\<lambda>a b. 256 * a + unat (b :: byte)) a bs < (a + 1) * 256 ^ length bs"
proof (induction bs arbitrary: a)
  case Nil
  then show ?case by simp
next
  case (Cons b bs)
  have "unat b < 256" using unsigned_less [of b] by simp
  then have step: "256 * a + unat b + 1 \<le> (a + 1) * 256" by simp
  have "foldl (\<lambda>a b. 256 * a + unat b) a (b # bs) =
          foldl (\<lambda>a b. 256 * a + unat b) (256 * a + unat b) bs"
    by simp
  also have "\<dots> < (256 * a + unat b + 1) * 256 ^ length bs"
    by (rule Cons.IH)
  also have "\<dots> \<le> ((a + 1) * 256) * 256 ^ length bs"
    using step by (rule mult_le_mono1)
  also have "\<dots> = (a + 1) * 256 ^ length (b # bs)"
    by (simp add: algebra_simps)
  finally show ?case .
qed

lemma os2ip_bound: "os2ip bs < 256 ^ length bs"
  using os2ip_foldl_bound [of 0 bs] by (simp add: os2ip_def)

lemma os2ip_leading_zero: "os2ip (0 # bs) < 256 ^ length bs"
  using os2ip_foldl_bound [of 0 bs] by (simp add: os2ip_def)

lemma length_concat_sha1:
  "length (concat (map (\<lambda>c. sha1 (f c)) xs)) = 20 * length xs"
  by (induction xs) (simp_all add: length_sha1)

lemma length_mgf1 [simp]: "length (mgf1 seed len) = len"
proof -
  have "len \<le> 20 * ((len + 19) div 20)" by presburger
  then show ?thesis
    by (simp add: mgf1_def length_concat_sha1)
qed

lemma oaep_encode_ok:
  assumes "length m + 42 \<le> k"
  shows "\<exists>rest. oaep_encode g k m = Inr (0 # rest) \<and> length rest = k - 1"
  using assms
  by (simp add: oaep_encode_def Let_def split_beta length_sha1 nat_diff_distrib)

lemma oaep_encode_too_large:
  assumes "k < length m + 42"
  shows "oaep_encode g k m = Inl DataTooLargeForKeySize"
  using assms by (simp add: oaep_encode_def Let_def)

lemma steam_public_key:
  "read_public_key SteamPublicKey =
     Some \<lparr>rsa_n = 0xdfec1ad62c10662c17353a14b07c59117f9dd3d82b7ae3e015cd191e46e87b8774a2184631a9031479828ee945a24912a923687389cf69a1b16146bdc1bebfd6011bd881d4dc90fbfe4f527366cb9570d7c58eba1c7a3375a1623446bb60b78068fa13a77a8a374b9ec6f45d5f3a99f99ec43ae963a2bb881928e0e714c04289,
           rsa_e = 17\<rparr>"
  by (simp add: read_public_key_def SteamPublicKey_def base64_decode_def b64_value_def
      der_expect_def der_tlv_def os2ip_def Let_def)


lemma steam_key_usable:
  assumes "read_public_key SteamPublicKey = Some pk"
  shows "num_bytes (rsa_n pk) = 128" and "rsa_key_check pk = None"
    and "odd (rsa_n pk)" and "256 ^ 127 \<le> rsa_n pk"
proof -
  let ?n = "0xdfec1ad62c10662c17353a14b07c59117f9dd3d82b7ae3e015cd191e46e87b8774a2184631a9031479828ee945a24912a923687389cf69a1b16146bdc1bebfd6011bd881d4dc90fbfe4f527366cb9570d7c58eba1c7a3375a1623446bb60b78068fa13a77a8a374b9ec6f45d5f3a99f99ec43ae963a2bb881928e0e714c04289 :: nat"
  have pk: "rsa_n pk = ?n" "rsa_e pk = 17"
    using assms unfolding steam_public_key by auto
  show "num_bytes (rsa_n pk) = 128"
    unfolding pk by (simp add: num_bytes.simps)
  have "?n < 2 ^ 1024" by simp
  then have "num_bits ?n \<le> 1024" by (rule num_bits_le)
  then show "rsa_key_check pk = None"
    by (simp add: rsa_key_check_def pk)
  show "odd (rsa_n pk)"
    unfolding pk by simp
  show "256 ^ 127 \<le> rsa_n pk"
    unfolding pk by simp
qed

lemma publicEncrypt_oaep_steam:
  assumes "read_public_key SteamPublicKey = Some pk"
  shows "length m \<le> 86 \<Longrightarrow> \<exists>c. publicEncrypt_oaep g pk m = Inr c \<and> length c = 128"
    and "86 < length m \<Longrightarrow> publicEncrypt_oaep g pk m = Inl DataTooLargeForKeySize"
proof -
  note key = steam_key_usable [OF assms]
  show "publicEncrypt_oaep g pk m = Inl DataTooLargeForKeySize" if "86 < length m"
    using that oaep_encode_too_large [of 128 m g]
    by (simp add: publicEncrypt_oaep_def key(1))
  show "\<exists>c. publicEncrypt_oaep g pk m = Inr c \<and> length c = 128" if "length m \<le> 86"
  proof -
    from that obtain rest where em: "oaep_encode g 128 m = Inr (0 # rest)" "length rest = 127"
      using oaep_encode_ok [of m 128 g] by auto
    have "os2ip (0 # rest) < 256 ^ 127"
      using os2ip_leading_zero [of rest] em(2) by simp
    then have "os2ip (0 # rest) < rsa_n pk"
      using key(4) by linarith
    then have "rsa_core pk (0 # rest) =
        Inr (bn2binpad 128 (modexp (os2ip (0 # rest)) (rsa_e pk) (rsa_n pk)))"
      using key(3) by (simp add: rsa_core_def key(1))
    then show ?thesis
      by (simp add: publicEncrypt_oaep_def key(1,2) em(1))
  qed
qed

lemma genSessionKey_small_nonce:
  assumes "32 + length nonce \<le> 86"
  shows "\<exists>c. genSessionKey g nonce = Inr \<lparr>plain = fst (randomBytes 32 g), encrypted = c\<rparr> \<and>
             length c = 128"
proof -
  obtain pk where pk: "read_public_key SteamPublicKey = Some pk"
    using steam_public_key by blast
  have "length (fst (randomBytes 32 g) @ nonce) \<le> 86"
    using assms by simp
  then obtain c where
    "publicEncrypt_oaep (snd (randomBytes 32 g)) pk (fst (randomBytes 32 g) @ nonce) = Inr c"
    "length c = 128"
    using publicEncrypt_oaep_steam(1) [OF pk] by blast
  then show ?thesis
    by (simp add: genSessionKey_def pk split_beta)
qed

lemma genSessionKey_large_nonce:
  assumes "86 < 32 + length nonce"
  shows "genSessionKey g nonce = Inl DataTooLargeForKeySize"
proof -
  obtain pk where pk: "read_public_key SteamPublicKey = Some pk"
    using steam_public_key by blast
  have "86 < length (fst (randomBytes 32 g) @ nonce)"
    using assms by simp
  then have
    "publicEncrypt_oaep (snd (randomBytes 32 g)) pk (fst (randomBytes 32 g) @ nonce) =
       Inl DataTooLargeForKeySize"
    by (rule publicEncrypt_oaep_steam(2) [OF pk])
  then show ?thesis
    by (simp add: genSessionKey_def pk split_beta)
qed

text \<open>
  Claim C5. For every nonce of 16 bytes, \<open>genSessionKey\<close> returns a session key whose
  \<open>plain\<close> field has exactly 32 bytes and whose \<open>encrypted\<close> field has exactly 128
  bytes.
\<close>

theorem genSessionKey_lengths:
  assumes "length nonce = 16"
  shows "\<exists>sk. genSessionKey g nonce = Inr sk \<and>
              length (plain sk) = 32 \<and> length (encrypted sk) = 128"
proof -
  have "32 + length nonce \<le> 86" using assms by simp
  from genSessionKey_small_nonce [OF this, of g] show ?thesis
    by auto
qed

theorem genSessionKey_lengths_witness:
  "length (replicate 16 (0 :: byte)) = 16 \<and>
   (\<exists>sk. genSessionKey (\<lambda>i. of_nat i) (replicate 16 0) = Inr sk \<and>
         length (plain sk) = 32 \<and> length (encrypted sk) = 128)"
  using genSessionKey_lengths [of "replicate 16 0" "\<lambda>i. of_nat i"]
  by simp

text \<open>
  Claim C8. \<open>genSessionKey\<close> does not check the length of the nonce. Whenever the 32
  bytes of the key and the nonce together fit the limit of RSA-OAEP under the fixed key of
  1024 bits, 86 bytes, the call returns a \<open>plain\<close> key of 32 bytes and an \<open>encrypted\<close>
  value of 128 bytes, whether or not the nonce has 16 bytes; a longer nonce meets the
  size limit of the RSA operation, not a validation of the nonce.
\<close>

theorem genSessionKey_any_nonce:
  "(32 + length nonce \<le> 86 \<longrightarrow>
      (\<exists>sk. genSessionKey g nonce = Inr sk \<and>
            length (plain sk) = 32 \<and> length (encrypted sk) = 128)) \<and>
   (86 < 32 + length nonce \<longrightarrow> genSessionKey g nonce = Inl DataTooLargeForKeySize)"
proof (intro conjI impI)
  assume "32 + length nonce \<le> 86"
  from genSessionKey_small_nonce [OF this, of g]
  show "\<exists>sk. genSessionKey g nonce = Inr sk \<and>
             length (plain sk) = 32 \<and> length (encrypted sk) = 128"
    by auto
next
  assume "86 < 32 + length nonce"
  then show "genSessionKey g nonce = Inl DataTooLargeForKeySize"
    by (rule genSessionKey_large_nonce)
qed

theorem genSessionKey_any_nonce_witness:
  "32 + length ([] :: buffer) \<le> 86 \<and>
   (\<exists>sk. genSessionKey (\<lambda>i. of_nat i) [] = Inr sk \<and>
         length (plain sk) = 32 \<and> length (encrypted sk) = 128) \<and>
   32 + length (replicate 54 (0 :: byte)) \<le> 86 \<and>
   (\<exists>sk. genSessionKey (\<lambda>i. of_nat i) (replicate 54 0) = Inr sk \<and>
         length (plain sk) = 32 \<and> length (encrypted sk) = 128) \<and>
   86 < 32 + length (replicate 55 (0 :: byte)) \<and>
   genSessionKey (\<lambda>i. of_nat i) (replicate 55 0) = Inl DataTooLargeForKeySize"
  using genSessionKey_any_nonce [of "[]" "\<lambda>i. of_nat i"]
    genSessionKey_any_nonce [of "replicate 54 0" "\<lambda>i. of_nat i"]
    genSessionKey_any_nonce [of "replicate 55 0" "\<lambda>i. of_nat i"]
  by simp

section \<open>rsaEncrypt and malformed hexadecimal text\<close>

lemma modexp_eq: "modexp b e m = b ^ e mod m"
proof (induction b e m rule: modexp.induct)
  case (1 b e m)
  show ?case
  proof (cases "e = 0")
    case True
    then show ?thesis by (simp add: modexp.simps)
  next
    case False
    show ?thesis
    proof (cases "odd e")
      case True
      then obtain q where e: "e = 2 * q + 1" by (auto elim: oddE)
      have h: "modexp b (e div 2) m = b ^ q mod m"
        using "1.IH"(1) [OF False True] e by simp
      have "modexp b e m = (b ^ q mod m) ^ 2 mod m * b mod m"
        using False True h by (simp add: modexp.simps [of b e m])
      also have "\<dots> = ((b ^ q) ^ 2 * b) mod m"
        by (simp add: power_mod mod_mult_left_eq)
      also have "(b ^ q) ^ 2 * b = b ^ e"
        by (simp add: e power_mult [symmetric] mult.commute)
      finally show ?thesis .
    next
      case ev: False
      then obtain q where e: "e = 2 * q" by (auto elim: evenE)
      have h: "modexp b (e div 2) m = b ^ q mod m"
        using "1.IH"(2) [OF False ev] e by simp
      have "modexp b e m = (b ^ q mod m) ^ 2 mod m"
        using False ev h by (simp add: modexp.simps [of b e m])
      also have "\<dots> = ((b ^ q) ^ 2) mod m"
        by (simp add: power_mod)
      also have "(b ^ q) ^ 2 = b ^ e"
        by (simp add: e power_mult [symmetric] mult.commute)
      finally show ?thesis .
    qed
  qed
qed

lemma num_bytes_eq:
  "256 ^ k \<le> n \<Longrightarrow> n < 256 ^ Suc k \<Longrightarrow> num_bytes n = Suc k"
proof (induction k arbitrary: n)
  case 0
  then have "n \<noteq> 0" "n div 256 = 0" by simp_all
  then show ?case by (simp add: num_bytes.simps [of n] num_bytes.simps [of 0])
next
  case (Suc k)
  have "0 < (256 :: nat) ^ Suc k" by simp
  then have "n \<noteq> 0" using Suc.prems(1) by linarith
  have "256 ^ k \<le> n div 256"
    using Suc.prems(1) by (simp add: less_eq_div_iff_mult_less_eq mult.commute)
  moreover have "n div 256 < 256 ^ Suc k"
    using Suc.prems(2) by (simp add: div_less_iff_less_mult mult.commute)
  ultimately have "num_bytes (n div 256) = Suc k" by (rule Suc.IH)
  then show ?case using \<open>n \<noteq> 0\<close> by (simp add: num_bytes.simps [of n])
qed

lemma replace_zeros_no_zero: "0 \<notin> set ps \<Longrightarrow> replace_zeros ps g = Some (ps, g)"
proof (induction ps)
  case Nil
  show ?case by (simp add: replace_zeros.simps [of "[]"])
next
  case (Cons b bs)
  then show ?case by (simp add: replace_zeros.simps [of "b # bs"])
qed

lemma hex_decode_append:
  "even (length m) \<Longrightarrow> \<forall>c\<in>set m. unhex c \<noteq> None \<Longrightarrow>
   hex_decode (m @ t) = hex_decode m @ hex_decode t"
  by (induction m rule: hex_decode.induct) auto

lemma hex_decode_tail:
  assumes "length t = 1 \<or> (2 \<le> length t \<and> (unhex (t ! 0) = None \<or> unhex (t ! 1) = None))"
  shows "hex_decode t = []"
  using assms by (cases t rule: hex_decode.cases) (auto split: option.split)

lemma hex_decode_malformed:
  assumes "even (length m)" "\<forall>c\<in>set m. unhex c \<noteq> None"
    and "length t = 1 \<or> (2 \<le> length t \<and> (unhex (t ! 0) = None \<or> unhex (t ! 1) = None))"
  shows "hex_decode (m @ t) = hex_decode m"
  using hex_decode_append [OF assms(1,2), of t] hex_decode_tail [OF assms(3)] by simp

lemma unat_low_byte: "unat ((c :: 16 word) AND 0xFF) = unat c mod 256"
proof -
  have "c AND 0xFF = take_bit 8 c"
    using take_bit_eq_mask [of 8 c] by (simp add: mask_eq_exp_minus_1)
  moreover have "unat (take_bit 8 c) = unat c mod 256"
    by (simp add: take_bit_eq_mod unat_mod)
  ultimately show ?thesis
    by (simp only:)
qed

lemma unhex_low_byte: "unhex (c AND 0xFF) = unhex c"
  by (simp add: unhex_def unat_low_byte)

lemma hex_decode_low_byte: "hex_decode (map (\<lambda>c. c AND 0xFF) s) = hex_decode s"
  by (induction s rule: hex_decode.induct)
     (auto simp: unhex_low_byte split: option.split)

text \<open>
  Claim C7, as the code has it. \<open>rsaEncrypt\<close> does not check the hexadecimal strings
  of the modulus and of the exponent. The decoder reads a character by the low byte of its
  code unit, stops at the first pair of characters that is not two hexadecimal digits and
  drops a single character left at the end, so a malformed string is read as its longest
  prefix \<open>m\<close> of such pairs, and the call does what it does for \<open>m\<close>: no error about
  the form of the input is raised.
\<close>

theorem rsaEncrypt_reads_hex_prefix:
  assumes "even (length m)" and "\<forall>c\<in>set m. unhex c \<noteq> None"
    and "length t = 1 \<or> (2 \<le> length t \<and> (unhex (t ! 0) = None \<or> unhex (t ! 1) = None))"
  shows "rsaEncrypt g password (m @ t) ex = rsaEncrypt g password m ex \<and>
         rsaEncrypt g password md (m @ t) = rsaEncrypt g password md m"
  using hex_decode_malformed [OF assms] by (simp add: rsaEncrypt_def)

theorem rsaEncrypt_reads_hex_prefix_witness:
  "rsaEncrypt ones (js ''secret'') (js ''c1b09'') (js ''010001'') =
     rsaEncrypt ones (js ''secret'') (js ''c1b0'') (js ''010001'') \<and>
   rsaEncrypt ones (js ''secret'') (js ''c1b0zz55'') (js ''010001'') =
     rsaEncrypt ones (js ''secret'') (js ''c1b0'') (js ''010001'') \<and>
   rsaEncrypt ones (js ''secret'') (js ''c1b0'') (js ''0100019'') =
     rsaEncrypt ones (js ''secret'') (js ''c1b0'') (js ''010001'') \<and>
   rsaEncrypt ones (js ''secret'') (js ''c1b0'') (js ''010001-1'') =
     rsaEncrypt ones (js ''secret'') (js ''c1b0'') (js ''010001'') \<and>
   rsaEncrypt ones (js ''secret'') [0x0130, 0x35, 0x0131] (js ''010001'') =
     rsaEncrypt ones (js ''secret'') [0x0130, 0x35] (js ''010001'') \<and>
   rsaEncrypt ones (js ''secret'') [0x63, 0x31, 0xE9, 0x31] (js ''010001'') =
     rsaEncrypt ones (js ''secret'') [0x63, 0x31] (js ''010001'')"
  using rsaEncrypt_reads_hex_prefix [of "js ''c1b0''" "js ''9''" ones "js ''secret''"
      "js ''010001''" "js ''c1b0''"]
    rsaEncrypt_reads_hex_prefix [of "js ''c1b0''" "js ''zz55''" ones "js ''secret''"
      "js ''010001''" "js ''c1b0''"]
    rsaEncrypt_reads_hex_prefix [of "js ''010001''" "js ''9''" ones "js ''secret''"
      "js ''010001''" "js ''c1b0''"]
    rsaEncrypt_reads_hex_prefix [of "js ''010001''" "js ''-1''" ones "js ''secret''"
      "js ''010001''" "js ''c1b0''"]
    rsaEncrypt_reads_hex_prefix [of "[0x0130, 0x35]" "[0x0131]" ones "js ''secret''"
      "js ''010001''" "js ''c1b0''"]
    rsaEncrypt_reads_hex_prefix [of "[0x63, 0x31]" "[0xE9, 0x31]" ones "js ''secret''"
      "js ''010001''" "js ''c1b0''"]
  by (simp add: js_def unhex_def)

lemma test_key:
  "createPublicKey_jwk (base64_encode (hex_decode testPublicKeyMod))
     (base64_encode (hex_decode testPublicKeyExp)) =
   \<lparr>rsa_n = 730974650400250584621155344856243890870094497601932452691460586045023051581910934378282296459447465243516922123415965416498617501971413078544125617801720545864980223720075,
    rsa_e = 65537\<rparr>"
  by (simp add: createPublicKey_jwk_def testPublicKeyMod_def testPublicKeyExp_def js_def
      unhex_def base64_decode_def b64_value_def b64_char_def b64_alphabet_def os2ip_def Let_def)

lemma randomBytes_ones: "randomBytes n ones = (replicate n 1, ones)"
proof -
  have "map ones [0..<n] = map (\<lambda>i. 1) [0..<n]"
    by (simp add: ones_def)
  then have "map ones [0..<n] = replicate n 1"
    by (simp add: map_replicate_const)
  moreover have "(\<lambda>i. ones (i + n)) = ones"
    by (simp add: fun_eq_iff ones_def)
  ultimately show ?thesis
    by (simp add: randomBytes_def)
qed

lemma test_password:
  "utf8_encode (js ''testpassword123'') = ascii ''testpassword123''"
  by (simp add: js_def ascii_def)

text \<open>
  The call made by the tests of the repository, whose modulus has an odd number of
  characters, returns a ciphertext: the RSA operation under the modulus read from the
  first 142 characters.
\<close>

theorem rsaEncrypt_odd_length_modulus_counterexample:
  "odd (length testPublicKeyMod) \<and>
   rsaEncrypt ones (js ''testpassword123'') testPublicKeyMod testPublicKeyExp =
     Some (Inr (js (base64_encode (bn2binpad 71
       (modexp (os2ip ([0, 2] @ replicate 53 1 @ [0] @ ascii ''testpassword123'')) 65537
          730974650400250584621155344856243890870094497601932452691460586045023051581910934378282296459447465243516922123415965416498617501971413078544125617801720545864980223720075)))))"
proof -
  let ?n = "730974650400250584621155344856243890870094497601932452691460586045023051581910934378282296459447465243516922123415965416498617501971413078544125617801720545864980223720075 :: nat"
  let ?pk = "\<lparr>rsa_n = ?n, rsa_e = 65537\<rparr>"
  define em where "em = [0, 2] @ replicate 53 1 @ [0] @ ascii ''testpassword123''"
  have len: "odd (length testPublicKeyMod)"
    by (simp add: testPublicKeyMod_def js_def)
  have lo: "256 ^ 70 \<le> ?n" and hi: "?n < 256 ^ Suc 70"
    by simp_all
  have nb: "num_bytes ?n = 71"
    using num_bytes_eq [OF lo hi] by simp
  have "?n < 2 ^ 568" by simp
  then have "num_bits ?n \<le> 568" by (rule num_bits_le)
  then have chk: "rsa_key_check ?pk = None"
    by (simp add: rsa_key_check_def)
  have rz: "replace_zeros (replicate 53 1) ones = Some (replicate 53 1, ones)"
    by (rule replace_zeros_no_zero) simp
  have enc: "pkcs1_type2_encode ones 71 (ascii ''testpassword123'') = Some (Inr em)"
    by (simp add: pkcs1_type2_encode_def ascii_def randomBytes_ones rz em_def)
  have "os2ip em < 256 ^ 70"
    using os2ip_leading_zero [of "[2] @ replicate 53 1 @ [0] @ ascii ''testpassword123''"]
    by (simp add: ascii_def em_def)
  then have lt: "os2ip em < ?n"
    using lo by linarith
  have "odd ?n" by simp
  then have core: "rsa_core ?pk em = Inr (bn2binpad 71 (modexp (os2ip em) 65537 ?n))"
    using lt by (simp add: rsa_core_def nb)
  have "publicEncrypt_pkcs1 ones ?pk (ascii ''testpassword123'') =
          Some (Inr (bn2binpad 71 (modexp (os2ip em) 65537 ?n)))"
    by (simp add: publicEncrypt_pkcs1_def nb chk enc core)
  then have "rsaEncrypt ones (js ''testpassword123'') testPublicKeyMod testPublicKeyExp =
          Some (Inr (js (base64_encode (bn2binpad 71 (modexp (os2ip em) 65537 ?n)))))"
    by (simp add: rsaEncrypt_def test_key test_password)
  with len show ?thesis unfolding em_def by simp
qed

end
